theory Spec2Isabelle
  imports Complex_Main
begin

section \<open>Strings\<close>

text \<open>
  JavaScript strings are modelled as \<^typ>\<open>string\<close>, one \<^typ>\<open>char\<close> per code unit;
  \<open>length\<close> is the \<open>.length\<close> property.  \<open>String.prototype.substring\<close> clamps both
  indices to the length of the string and swaps them when they are out of order.
\<close>

definition substring :: "string \<Rightarrow> nat \<Rightarrow> nat \<Rightarrow> string" where
  "substring s indexStart indexEnd =
     (let a = min indexStart (length s);
          b = min indexEnd (length s);
          lo = min a b;
          hi = max a b
      in take (hi - lo) (drop lo s))"

text \<open>
  \<open>String.prototype.toLowerCase\<close>, restricted to the ASCII letters: every other
  code unit is left as it is.
\<close>

definition toLowerCase :: "string \<Rightarrow> string" where
  "toLowerCase s =
     map (\<lambda>c. case map_of (zip ''ABCDEFGHIJKLMNOPQRSTUVWXYZ'' ''abcdefghijklmnopqrstuvwxyz'') c of
                 None \<Rightarrow> c
               | Some l \<Rightarrow> l) s"

section \<open>Errors\<close>

text \<open>
  Every \<open>throw\<close> of the source is a constructor: the four checks of the generator's
  constructor, the check of the depth in the constructor of the char-depth strategy, the
  failed draw of \<open>_getMatchingSequence\<close> (with the value drawn), and the exhausted
  tries of \<open>generate\<close> (with the inner cause when the last attempt threw).
  \<open>TypeError\<close> is the error the JavaScript runtime raises when a property of
  \<open>undefined\<close> is assigned.
\<close>

datatype error =
    SampleSetError
  | TargetLengthMinError
  | TargetLengthMaxError
  | SequencingStrategyError
  | DepthError
  | FailedToGetItem rat
  | MaximumTriesExceeded "error option"
  | TypeError

section \<open>Sequences and the char-depth sequencing strategy\<close>

record Sequence =
  chars :: string
  isBeginning :: bool
  isMiddle :: bool
  isEnding :: bool

record CharDepthSequencingStrategy =
  depth :: nat
  preserveCase :: bool

text \<open>
  Modelled from the spec: \<open>isInteger\<close> of \<open>util/validation.mjs\<close>, which is not among
  the sources.  An argument is \<open>undefined\<close> (\<open>None\<close>) or a number; it is an integer
  when it is a number with no fractional part.
\<close>

definition isInteger :: "rat option \<Rightarrow> bool" where
  "isInteger v = (case v of None \<Rightarrow> False | Some r \<Rightarrow> of_int \<lfloor>r\<rfloor> = r)"

text \<open>\<open>parseInt\<close> of a number: its integral part, towards zero.\<close>

definition parseInt :: "rat \<Rightarrow> int" where
  "parseInt r = (if 0 \<le> r then \<lfloor>r\<rfloor> else \<lceil>r\<rceil>)"

text \<open>
  The constructor \<open>constructor(depth = 1, preserveCase = false)\<close>: an omitted argument
  takes its default, and \<open>preserveCase ?? false\<close> does the same once more.
\<close>

definition CharDepthSequencingStrategy_new ::
    "rat option \<Rightarrow> bool option \<Rightarrow> error + CharDepthSequencingStrategy" where
  "CharDepthSequencingStrategy_new depthArg preserveCaseArg =
     (let d = (case depthArg of None \<Rightarrow> 1 | Some r \<Rightarrow> r);
          p = (case preserveCaseArg of None \<Rightarrow> False | Some b \<Rightarrow> b)
      in if isInteger (Some d) \<noteq> True \<or> parseInt d \<le> 0 then Inl DepthError
         else Inr \<lparr>depth = nat \<lfloor>d\<rfloor>, preserveCase = p\<rparr>)"

text \<open>
  The body of the loop of \<open>getSequencesOfSample\<close>: the sequence built at offset \<open>i\<close>.
\<close>

definition currentSequence :: "CharDepthSequencingStrategy \<Rightarrow> string \<Rightarrow> nat \<Rightarrow> Sequence" where
  "currentSequence this sample i =
     (let chars0 = substring sample i (i + depth this);
          chars1 = (if preserveCase this \<noteq> True then toLowerCase chars0 else chars0);
          hasFollowingChar = (i + 1 < length sample)
      in \<lparr>chars = chars1,
          isBeginning = (i = 0),
          isMiddle = (i \<noteq> 0 \<and> hasFollowingChar = True),
          isEnding = (hasFollowingChar \<noteq> True)\<rparr>)"

text \<open>
  \<open>getSequencesOfSample\<close>: the loop \<open>for (let i = 0; i < sample.length; i += this.depth)\<close>.
  A depth of zero never leaves the loop, so the result is an option and \<open>None\<close> stands
  for a call that does not return.
\<close>

partial_function (option) getSequencesOfSample_loop ::
    "CharDepthSequencingStrategy \<Rightarrow> string \<Rightarrow> nat \<Rightarrow> Sequence list \<Rightarrow> Sequence list option" where
  "getSequencesOfSample_loop this sample i sequences =
     (if i < length sample
      then getSequencesOfSample_loop this sample (i + depth this)
             (sequences @ [currentSequence this sample i])
      else Some sequences)"

declare getSequencesOfSample_loop.simps [code]

definition getSequencesOfSample ::
    "CharDepthSequencingStrategy \<Rightarrow> string \<Rightarrow> Sequence list option" where
  "getSequencesOfSample this sample = getSequencesOfSample_loop this sample 0 []"

text \<open>
  Modelled from the spec: \<open>getSequencesOfSet\<close> of the abstract sequencing strategy, which
  is not among the sources.  It applies \<open>getSequencesOfSample\<close> to each sample, in the
  order of the corpus, and concatenates the results.
\<close>

fun getSequencesOfSet :: "CharDepthSequencingStrategy \<Rightarrow> string list \<Rightarrow> Sequence list option" where
  "getSequencesOfSet this [] = Some []"
| "getSequencesOfSet this (sample # samples) =
     (case getSequencesOfSample this sample of
        None \<Rightarrow> None
      | Some xs \<Rightarrow>
          (case getSequencesOfSet this samples of
             None \<Rightarrow> None
           | Some ys \<Rightarrow> Some (xs @ ys)))"

section \<open>Aggregation\<close>

record AggregatedSequence =
  chars :: string
  frequencyBeginning :: nat
  frequencyMiddle :: nat
  frequencyEnding :: nat
  frequency :: nat

text \<open>
  A JavaScript \<open>Map\<close> keeps its entries in the order of their first insertion, and
  \<open>values()\<close> iterates in that order: an association list, a new key at the end.
\<close>

definition Map_get :: "('k \<times> 'v) list \<Rightarrow> 'k \<Rightarrow> 'v option" where
  "Map_get m k = map_of m k"

definition Map_set :: "('k \<times> 'v) list \<Rightarrow> 'k \<Rightarrow> 'v \<Rightarrow> ('k \<times> 'v) list" where
  "Map_set m k v =
     (if k \<in> fst ` set m then map (\<lambda>(k', v'). if k' = k then (k', v) else (k', v')) m
      else m @ [(k, v)])"

definition Map_values :: "('k \<times> 'v) list \<Rightarrow> 'v list" where
  "Map_values m = map snd m"

text \<open>
  One turn of the loop of \<open>_aggregateSequences\<close>.  The source increments the fields of
  the object held by the map; the model stores the updated record under the same key.
\<close>

definition aggregateSequences_step ::
    "(string \<times> AggregatedSequence) list \<Rightarrow> Sequence \<Rightarrow> (string \<times> AggregatedSequence) list" where
  "aggregateSequences_step mapOfAggregated s =
     (let a0 = (case Map_get mapOfAggregated (Sequence.chars s) of
                  None \<Rightarrow> \<lparr>chars = Sequence.chars s, frequencyBeginning = 0, frequencyMiddle = 0,
                            frequencyEnding = 0, frequency = 0\<rparr>
                | Some a \<Rightarrow> a);
          a1 = (if isBeginning s = True then a0\<lparr>frequencyBeginning := frequencyBeginning a0 + 1\<rparr> else a0);
          a2 = (if isMiddle s = True then a1\<lparr>frequencyMiddle := frequencyMiddle a1 + 1\<rparr> else a1);
          a3 = (if isEnding s = True then a2\<lparr>frequencyEnding := frequencyEnding a2 + 1\<rparr> else a2);
          a4 = a3\<lparr>frequency := frequency a3 + 1\<rparr>
      in Map_set mapOfAggregated (Sequence.chars s) a4)"

definition aggregateSequences :: "Sequence list \<Rightarrow> AggregatedSequence list" where
  "aggregateSequences sequences = Map_values (foldl aggregateSequences_step [] sequences)"

section \<open>Probabilities\<close>

text \<open>
  JavaScript numbers are modelled as rationals: the arithmetic of the source is exact
  in the model.
\<close>

record AggregatedSequenceProbabilities =
  sequence :: AggregatedSequence
  probabilityBeginning :: rat
  probabilityMiddle :: rat
  probabilityEnding :: rat
  probability :: rat

definition getAggregatedSequenceProbabilities ::
    "AggregatedSequence list \<Rightarrow> AggregatedSequenceProbabilities list" where
  "getAggregatedSequenceProbabilities aggregatedSequences =
     (let frequencyTotalBeginnings = sum_list (map frequencyBeginning aggregatedSequences);
          frequencyTotalMiddles = sum_list (map frequencyMiddle aggregatedSequences);
          frequencyTotalEndings = sum_list (map frequencyEnding aggregatedSequences);
          frequencyTotal = length aggregatedSequences
      in map (\<lambda>a.
            let totalOccurrences = frequencyBeginning a + frequencyMiddle a + frequencyEnding a
            in \<lparr>sequence = a,
                probabilityBeginning =
                  (if frequencyBeginning a > 0
                   then of_nat (frequencyBeginning a) / of_nat frequencyTotalBeginnings else 0),
                probabilityMiddle =
                  (if frequencyMiddle a > 0
                   then of_nat (frequencyMiddle a) / of_nat frequencyTotalMiddles else 0),
                probabilityEnding =
                  (if frequencyEnding a > 0
                   then of_nat (frequencyEnding a) / of_nat frequencyTotalEndings else 0),
                probability = of_nat totalOccurrences / of_nat frequencyTotal\<rparr>)
          aggregatedSequences)"

section \<open>Weighted tables\<close>

record ProbabilityAndSequence =
  probability :: rat
  sequence :: AggregatedSequence

datatype SEQUENCE_TYPES = BEGINNING | MIDDLE | ENDING

text \<open>
  The comparator handed to \<open>sort\<close> is \<open>(a, b) => { a.probability > b.probability ? 1 : -1 }\<close>:
  its body is a block whose only statement is an expression, so every call returns
  \<open>undefined\<close> (\<open>None\<close>).
\<close>

definition comparefn :: "ProbabilityAndSequence \<Rightarrow> ProbabilityAndSequence \<Rightarrow> int option" where
  "comparefn a b = None"

text \<open>
  \<open>Array.prototype.sort\<close>: the result of the comparator is converted to a number, and
  \<open>undefined\<close> converts to \<open>NaN\<close>, which the sort reads as \<open>+0\<close>.  The sort is stable:
  an element is placed before the first later element it does not exceed.
\<close>

definition SortCompare :: "('a \<Rightarrow> 'a \<Rightarrow> int option) \<Rightarrow> 'a \<Rightarrow> 'a \<Rightarrow> int" where
  "SortCompare f x y = (case f x y of None \<Rightarrow> 0 | Some v \<Rightarrow> v)"

fun sort_insert :: "('a \<Rightarrow> 'a \<Rightarrow> int option) \<Rightarrow> 'a \<Rightarrow> 'a list \<Rightarrow> 'a list" where
  "sort_insert f x [] = [x]"
| "sort_insert f x (y # ys) =
     (if SortCompare f x y \<le> 0 then x # y # ys else y # sort_insert f x ys)"

definition Array_sort :: "('a \<Rightarrow> 'a \<Rightarrow> int option) \<Rightarrow> 'a list \<Rightarrow> 'a list" where
  "Array_sort f xs = foldr (sort_insert f) xs []"

text \<open>The loop that replaces each probability by the running sum.\<close>

fun enrich :: "rat \<Rightarrow> ProbabilityAndSequence list \<Rightarrow> ProbabilityAndSequence list" where
  "enrich newProbability [] = []"
| "enrich newProbability (p # ps) =
     \<lparr>probability = newProbability + ProbabilityAndSequence.probability p,
      sequence = ProbabilityAndSequence.sequence p\<rparr>
     # enrich (newProbability + ProbabilityAndSequence.probability p) ps"

text \<open>
  \<open>_getWeightedProbabilities\<close>.  Its last statement assigns the \<open>probability\<close> of the
  entry at index \<open>length - 1\<close>; on an empty table that entry is \<open>undefined\<close> and the
  assignment raises a \<open>TypeError\<close>.
\<close>

definition getWeightedProbabilities ::
    "AggregatedSequenceProbabilities list \<Rightarrow> SEQUENCE_TYPES \<Rightarrow> error + ProbabilityAndSequence list" where
  "getWeightedProbabilities probabilities type =
     (let filtered =
            (case type of
               BEGINNING \<Rightarrow>
                 map (\<lambda>it. \<lparr>probability = probabilityBeginning it,
                            sequence = AggregatedSequenceProbabilities.sequence it\<rparr>)
                   (filter (\<lambda>it. probabilityBeginning it > 0) probabilities)
             | MIDDLE \<Rightarrow>
                 map (\<lambda>it. \<lparr>probability = probabilityMiddle it,
                            sequence = AggregatedSequenceProbabilities.sequence it\<rparr>)
                   (filter (\<lambda>it. probabilityMiddle it > 0) probabilities)
             | ENDING \<Rightarrow>
                 map (\<lambda>it. \<lparr>probability = probabilityEnding it,
                            sequence = AggregatedSequenceProbabilities.sequence it\<rparr>)
                   (filter (\<lambda>it. probabilityEnding it > 0) probabilities));
          filteredAndSorted = Array_sort comparefn filtered;
          weightedAndSorted = enrich 0 filteredAndSorted
      in if length weightedAndSorted = 0 then Inl TypeError
         else Inr (weightedAndSorted
                    [length weightedAndSorted - 1 :=
                       (weightedAndSorted ! (length weightedAndSorted - 1))\<lparr>probability := 1\<rparr>]))"

text \<open>\<open>_getMatchingSequence\<close>, the local function of \<open>_generateSingleWord\<close>.\<close>

fun getMatchingSequence :: "ProbabilityAndSequence list \<Rightarrow> rat \<Rightarrow> error + ProbabilityAndSequence" where
  "getMatchingSequence [] val = Inl (FailedToGetItem val)"
| "getMatchingSequence (weightedItem # weightedList) val =
     (if val \<le> ProbabilityAndSequence.probability weightedItem then Inr weightedItem
      else getMatchingSequence weightedList val)"

section \<open>The seeded random number generator\<close>

text \<open>
  Modelled from the spec: \<open>RandomSeeded\<close> of \<open>util/random-seed.mjs\<close>, which is not among
  the sources.  The object is a state together with its two draws, \<open>generate()\<close> and
  \<open>generate(min, max)\<close>; each draw returns a number and the state that follows.
\<close>

record 's RandomSeeded =
  state :: 's
  next01 :: "'s \<Rightarrow> rat \<times> 's"
  nextBetween :: "rat \<Rightarrow> rat \<Rightarrow> 's \<Rightarrow> rat \<times> 's"

text \<open>
  Modelled from the spec: the calls \<open>generate()\<close> and \<open>generate(min, max)\<close> on a
  \<open>RandomSeeded\<close> object.  Each returns the number drawn and the object with the state
  that follows.
\<close>

definition rng_generate :: "'s RandomSeeded \<Rightarrow> rat \<times> 's RandomSeeded" where
  "rng_generate r = (let (v, s) = next01 r (state r) in (v, r\<lparr>state := s\<rparr>))"

definition rng_generate_between :: "'s RandomSeeded \<Rightarrow> rat \<Rightarrow> rat \<Rightarrow> rat \<times> 's RandomSeeded" where
  "rng_generate_between r lo hi = (let (v, s) = nextBetween r lo hi (state r) in (v, r\<lparr>state := s\<rparr>))"

text \<open>
  Modelled from the spec: the constructor of \<open>RandomSeeded\<close>.  An undefined or empty
  seed is replaced by a fixed fallback seed.  The fallback seed, the function that turns
  a seed into a state and the two draws are what the missing module supplies.
\<close>

record 's RandomSeeded_module =
  fallbackSeed :: string
  seedState :: "string \<Rightarrow> 's"
  draw01 :: "'s \<Rightarrow> rat \<times> 's"
  drawBetween :: "rat \<Rightarrow> rat \<Rightarrow> 's \<Rightarrow> rat \<times> 's"

definition RandomSeeded_new :: "'s RandomSeeded_module \<Rightarrow> string option \<Rightarrow> 's RandomSeeded" where
  "RandomSeeded_new m seedArg =
     \<lparr>state = seedState m (case seedArg of
                             None \<Rightarrow> fallbackSeed m
                           | Some s \<Rightarrow> if s = [] then fallbackSeed m else s),
      next01 = draw01 m,
      nextBetween = drawBetween m\<rparr>"

section \<open>Assembling one word\<close>

text \<open>
  The loop \<open>while (charactersLength < targetLength)\<close> of \<open>_generateSingleWord\<close>.  A
  middle sequence with no characters does not advance the length, so the loop may run
  forever: \<open>None\<close> stands for a call that does not return.  A \<open>throw\<close> leaves the
  generator's random state as the draws before it left it.
\<close>

partial_function (option) middle_loop ::
    "ProbabilityAndSequence list \<Rightarrow> int \<Rightarrow> nat \<Rightarrow> AggregatedSequence list \<Rightarrow> 's RandomSeeded
      \<Rightarrow> ((error + AggregatedSequence list) \<times> 's RandomSeeded) option" where
  "middle_loop probableMiddles targetLength charactersLength resultingSequences rng0 =
     (if int charactersLength < targetLength then
        (case getMatchingSequence probableMiddles (fst (rng_generate rng0)) of
           Inl e \<Rightarrow> Some (Inl e, snd (rng_generate rng0))
         | Inr item \<Rightarrow>
             middle_loop probableMiddles targetLength
               (charactersLength + length (chars (ProbabilityAndSequence.sequence item)))
               (resultingSequences @ [ProbabilityAndSequence.sequence item])
               (snd (rng_generate rng0)))
      else Some (Inr resultingSequences, rng0))"

declare middle_loop.simps [code]

definition generateSingleWord ::
    "ProbabilityAndSequence list \<Rightarrow> ProbabilityAndSequence list \<Rightarrow> ProbabilityAndSequence list
      \<Rightarrow> rat \<Rightarrow> rat \<Rightarrow> 's RandomSeeded \<Rightarrow> ((error + string) \<times> 's RandomSeeded) option" where
  "generateSingleWord probableBeginnings probableMiddles probableEndings minLength maxLength rng0 =
     (let (t, rng1) = rng_generate_between rng0 minLength maxLength;
          targetLength = round t;
          (rndBeginning, rng2) = rng_generate rng1
      in case getMatchingSequence probableBeginnings rndBeginning of
           Inl e \<Rightarrow> Some (Inl e, rng2)
         | Inr b \<Rightarrow>
             (let beginningSequence = ProbabilityAndSequence.sequence b;
                  charactersLength = length (chars beginningSequence);
                  (rndEnding, rng3) = rng_generate rng2
              in case getMatchingSequence probableEndings rndEnding of
                   Inl e \<Rightarrow> Some (Inl e, rng3)
                 | Inr en \<Rightarrow>
                     (let endingSequence = ProbabilityAndSequence.sequence en;
                          charactersLength' = charactersLength + length (chars endingSequence)
                      in case middle_loop probableMiddles targetLength charactersLength'
                                [beginningSequence] rng3 of
                           None \<Rightarrow> None
                         | Some (Inl e, rng4) \<Rightarrow> Some (Inl e, rng4)
                         | Some (Inr resultingSequences, rng4) \<Rightarrow>
                             Some (Inr (concat (map chars (resultingSequences @ [endingSequence]))),
                                   rng4))))"

section \<open>The generator\<close>

text \<open>
  The argument object of the constructor: every property may be \<open>undefined\<close>.  A
  strategy object is represented by the method the generator calls on it,
  \<open>getSequencesOfSet\<close> and \<open>apply\<close>.
\<close>

record args =
  sampleSet :: "string list option"
  targetLengthMin :: "rat option"
  targetLengthMax :: "rat option"
  sequencingStrategy :: "(string list \<Rightarrow> Sequence list option) option"
  seed :: "string option"
  spellingStrategy :: "(string \<Rightarrow> string) option"

record 's MarkovChainWordGenerator =
  sampleSet :: "string list"
  targetLengthMin :: rat
  targetLengthMax :: rat
  seed :: "string option"
  sequencingStrategy :: "string list \<Rightarrow> Sequence list option"
  spellingStrategy :: "(string \<Rightarrow> string) option"
  rng :: "'s RandomSeeded"

definition MarkovChainWordGenerator_new ::
    "'s RandomSeeded_module \<Rightarrow> args \<Rightarrow> error + 's MarkovChainWordGenerator" where
  "MarkovChainWordGenerator_new m a =
     (if args.sampleSet a = None \<or> length (the (args.sampleSet a)) = 0 then Inl SampleSetError
      else if isInteger (args.targetLengthMin a) \<noteq> True
              \<or> parseInt (the (args.targetLengthMin a)) \<le> 0 then Inl TargetLengthMinError
      else if isInteger (args.targetLengthMax a) \<noteq> True
              \<or> parseInt (the (args.targetLengthMax a)) \<le> 0 then Inl TargetLengthMaxError
      else if args.sequencingStrategy a = None then Inl SequencingStrategyError
      else Inr \<lparr>sampleSet = the (args.sampleSet a),
                targetLengthMin = the (args.targetLengthMin a),
                targetLengthMax = the (args.targetLengthMax a),
                seed = args.seed a,
                sequencingStrategy = the (args.sequencingStrategy a),
                spellingStrategy = args.spellingStrategy a,
                rng = RandomSeeded_new m (args.seed a)\<rparr>)"

definition repetitionMaximum :: nat where
  "repetitionMaximum = 1000"

text \<open>
  The \<open>do ... while\<close> loop of \<open>generate\<close> for one word.  \<open>word\<close> keeps the value of the
  last attempt that assembled one; a caught error leaves it as it was.
\<close>

function generate_attempts ::
    "ProbabilityAndSequence list \<Rightarrow> ProbabilityAndSequence list \<Rightarrow> ProbabilityAndSequence list
      \<Rightarrow> rat \<Rightarrow> rat \<Rightarrow> string list \<Rightarrow> nat \<Rightarrow> string option \<Rightarrow> 's RandomSeeded
      \<Rightarrow> ((error + string) \<times> 's RandomSeeded) option" where
  "generate_attempts probableBeginnings probableMiddles probableEndings minLength maxLength
       words attempt word rng0 =
     (if attempt \<ge> repetitionMaximum then Some (Inl (MaximumTriesExceeded None), rng0)
      else
        (case generateSingleWord probableBeginnings probableMiddles probableEndings
                minLength maxLength rng0 of
           None \<Rightarrow> None
         | Some (r, rng1) \<Rightarrow>
             (case (case r of
                      Inr w \<Rightarrow> Inr (Some w)
                    | Inl e \<Rightarrow> if attempt + 1 \<ge> repetitionMaximum
                               then Inl (MaximumTriesExceeded (Some e)) else Inr word) of
                Inl e \<Rightarrow> Some (Inl e, rng1)
              | Inr word' \<Rightarrow>
                  (case word' of
                     None \<Rightarrow>
                       generate_attempts probableBeginnings probableMiddles probableEndings
                         minLength maxLength words (attempt + 1) word' rng1
                   | Some w \<Rightarrow>
                       if w \<in> set words
                       then generate_attempts probableBeginnings probableMiddles probableEndings
                              minLength maxLength words (attempt + 1) word' rng1
                       else Some (Inr w, rng1)))))"
  by pat_completeness auto
termination
  by (relation "measure (\<lambda>(pb, pm, pe, lo, hi, ws, attempt, w, r). repetitionMaximum - attempt)")
     auto

declare generate_attempts.simps [simp del]

text \<open>The loop \<open>for (let i = 0; i < howMany; i++)\<close> of \<open>generate\<close>.\<close>

function generate_words ::
    "ProbabilityAndSequence list \<Rightarrow> ProbabilityAndSequence list \<Rightarrow> ProbabilityAndSequence list
      \<Rightarrow> rat \<Rightarrow> rat \<Rightarrow> nat \<Rightarrow> nat \<Rightarrow> string list \<Rightarrow> 's RandomSeeded
      \<Rightarrow> ((error + string list) \<times> 's RandomSeeded) option" where
  "generate_words probableBeginnings probableMiddles probableEndings minLength maxLength
       howMany i words rng0 =
     (if i < howMany then
        (case generate_attempts probableBeginnings probableMiddles probableEndings
                minLength maxLength words 0 None rng0 of
           None \<Rightarrow> None
         | Some (Inl e, rng1) \<Rightarrow> Some (Inl e, rng1)
         | Some (Inr word, rng1) \<Rightarrow>
             generate_words probableBeginnings probableMiddles probableEndings
               minLength maxLength howMany (i + 1) (words @ [word]) rng1)
      else Some (Inr words, rng0))"
  by pat_completeness auto
termination
  by (relation "measure (\<lambda>(pb, pm, pe, lo, hi, howMany, i, ws, r). howMany - i)") auto

declare generate_words.simps [simp del]

text \<open>
  \<open>generate\<close>.  The result is the returned list or the error thrown, together with the
  generator as the call leaves it: only its random state changes.
\<close>

definition generate ::
    "'s MarkovChainWordGenerator \<Rightarrow> nat
      \<Rightarrow> ((error + string list) \<times> 's MarkovChainWordGenerator) option" where
  "generate this howMany =
     (case sequencingStrategy this (sampleSet this) of
        None \<Rightarrow> None
      | Some sequences \<Rightarrow>
          (let aggregatedSequences = aggregateSequences sequences;
               probabilities = getAggregatedSequenceProbabilities aggregatedSequences
           in case getWeightedProbabilities probabilities BEGINNING of
                Inl e \<Rightarrow> Some (Inl e, this)
              | Inr probableBeginnings \<Rightarrow>
             (case getWeightedProbabilities probabilities MIDDLE of
                Inl e \<Rightarrow> Some (Inl e, this)
              | Inr probableMiddles \<Rightarrow>
             (case getWeightedProbabilities probabilities ENDING of
                Inl e \<Rightarrow> Some (Inl e, this)
              | Inr probableEndings \<Rightarrow>
             (case generate_words probableBeginnings probableMiddles probableEndings
                     (targetLengthMin this) (targetLengthMax this) howMany 0 [] (rng this) of
                None \<Rightarrow> None
              | Some (Inl e, rng1) \<Rightarrow> Some (Inl e, this\<lparr>rng := rng1\<rparr>)
              | Some (Inr words, rng1) \<Rightarrow>
                  Some (Inr (case spellingStrategy this of
                               None \<Rightarrow> words
                             | Some apply \<Rightarrow> map apply words),
                        this\<lparr>rng := rng1\<rparr>))))))"

text \<open>
  \<open>String.prototype.toUpperCase\<close>, restricted to the ASCII letters.
\<close>

definition toUpperCase :: "string \<Rightarrow> string" where
  "toUpperCase s =
     map (\<lambda>c. case map_of (zip ''abcdefghijklmnopqrstuvwxyz'' ''ABCDEFGHIJKLMNOPQRSTUVWXYZ'') c of
                 None \<Rightarrow> c
               | Some u \<Rightarrow> u) s"

text \<open>
  Modelled from the spec: \<open>BeginningCapitalsSpellingStrategy.apply\<close>, which is not among
  the sources.  It uppercases the first character of the word and leaves the remainder
  unchanged.
\<close>

definition BeginningCapitals_apply :: "string \<Rightarrow> string" where
  "BeginningCapitals_apply word = toUpperCase (take 1 word) @ drop 1 word"

text \<open>
  A toy instance of the missing module, for evaluating runs: the state is the list of the
  raw draws still to come, \<open>generate(min, max)\<close> scales its draw to \<open>[min, max]\<close>, and
  a seed yields one draw per character, its code divided by 128 (in \<open>[0, 1)\<close> for an
  ASCII seed).
\<close>

definition scripted :: "rat list RandomSeeded_module" where
  "scripted =
     \<lparr>fallbackSeed = ''fallback'',
      seedState = map (\<lambda>c. of_nat (of_char c) / 128),
      draw01 = (\<lambda>s. case s of [] \<Rightarrow> (0, []) | x # xs \<Rightarrow> (x, xs)),
      drawBetween = (\<lambda>lo hi s. case s of [] \<Rightarrow> (lo, []) | x # xs \<Rightarrow> (lo + x * (hi - lo), xs))\<rparr>"

definition scripted_rng :: "rat list \<Rightarrow> rat list RandomSeeded" where
  "scripted_rng script =
     \<lparr>state = script, next01 = draw01 scripted, nextBetween = drawBetween scripted\<rparr>"

section \<open>Runs\<close>

text \<open>The random number generator after \<open>k\<close> calls of \<open>generate()\<close>.\<close>

definition rng_after :: "nat \<Rightarrow> 's RandomSeeded \<Rightarrow> 's RandomSeeded" where
  "rng_after k r = ((\<lambda>r. snd (rng_generate r)) ^^ k) r"

text \<open>
  The first \<open>n\<close> draws from a table, each with the next value of \<open>generate()\<close>.
\<close>

fun draws ::
    "ProbabilityAndSequence list \<Rightarrow> nat \<Rightarrow> 's RandomSeeded \<Rightarrow> (error + ProbabilityAndSequence) list" where
  "draws table 0 r = []"
| "draws table (Suc n) r =
     getMatchingSequence table (fst (rng_generate r)) # draws table n (snd (rng_generate r))"

text \<open>The number of characters a drawn entry adds to a word.\<close>

definition charsLength :: "ProbabilityAndSequence \<Rightarrow> nat" where
  "charsLength item = length (chars (ProbabilityAndSequence.sequence item))"

text \<open>
  The outcomes of \<open>k\<close> successive calls of \<open>_generateSingleWord\<close>, and the random number
  generator after them; \<open>None\<close> when one of the calls does not return.
\<close>

fun attempts_trace ::
    "ProbabilityAndSequence list \<Rightarrow> ProbabilityAndSequence list \<Rightarrow> ProbabilityAndSequence list
      \<Rightarrow> rat \<Rightarrow> rat \<Rightarrow> nat \<Rightarrow> 's RandomSeeded
      \<Rightarrow> ((error + string) list \<times> 's RandomSeeded) option" where
  "attempts_trace pb pm pe lo hi 0 r = Some ([], r)"
| "attempts_trace pb pm pe lo hi (Suc k) r =
     (case generateSingleWord pb pm pe lo hi r of
        None \<Rightarrow> None
      | Some (x, r1) \<Rightarrow>
          (case attempts_trace pb pm pe lo hi k r1 of
             None \<Rightarrow> None
           | Some (xs, r2) \<Rightarrow> Some (x # xs, r2)))"

text \<open>An attempt fails when it throws or assembles a word that is already accepted.\<close>

definition failed_attempt :: "string list \<Rightarrow> error + string \<Rightarrow> bool" where
  "failed_attempt words x = (case x of Inl e \<Rightarrow> True | Inr w \<Rightarrow> w \<in> set words)"

text \<open>
  What the retry loop may end with after the attempts \<open>outcomes\<close>, with \<open>limit\<close>
  attempts left at its start.  It throws only when the limit is used up, every attempt
  failed, and the error is the one of the exhausted tries; it yields a word only when
  that word is the outcome of the last attempt, is not accepted yet, and every attempt
  before it failed.
\<close>

definition attempts_outcome ::
    "string list \<Rightarrow> nat \<Rightarrow> error + string \<Rightarrow> (error + string) list \<Rightarrow> bool" where
  "attempts_outcome words limit res outcomes =
     (case res of
        Inl e \<Rightarrow>
          length outcomes = limit \<and> list_all (failed_attempt words) outcomes
          \<and> (case e of MaximumTriesExceeded c \<Rightarrow> True | _ \<Rightarrow> False)
      | Inr w \<Rightarrow>
          1 \<le> length outcomes \<and> length outcomes \<le> limit \<and> last outcomes = Inr w
          \<and> w \<notin> set words \<and> list_all (failed_attempt words) (butlast outcomes))"

text \<open>
  Successive calls of \<open>generate\<close> on one generator, each with its \<open>howMany\<close>: the list of
  what the calls return or throw; \<open>None\<close> when one of them does not return.
\<close>

fun generate_calls ::
    "'s MarkovChainWordGenerator \<Rightarrow> nat list \<Rightarrow> (error + string list) list option" where
  "generate_calls this [] = Some []"
| "generate_calls this (howMany # rest) =
     (case generate this howMany of
        None \<Rightarrow> None
      | Some (out, this') \<Rightarrow>
          (case generate_calls this' rest of
             None \<Rightarrow> None
           | Some outs \<Rightarrow> Some (out # outs)))"

text \<open>
  A client: it constructs a generator and calls \<open>generate\<close> on it once for each element
  of the list.  The result is the error of the constructor, or what the calls return or
  throw.
\<close>

definition construct_and_call ::
    "'s RandomSeeded_module \<Rightarrow> args \<Rightarrow> nat list \<Rightarrow> (error + (error + string list) list) option" where
  "construct_and_call m a howManys =
     (case MarkovChainWordGenerator_new m a of
        Inl e \<Rightarrow> Some (Inl e)
      | Inr g \<Rightarrow> map_option Inr (generate_calls g howManys))"

text \<open>
  The three weighted tables that \<open>generate\<close> builds for a generator, before its loop:
  the predicate holds of the beginning, middle and ending table when the sequencing
  strategy returns and none of the three \<open>_getWeightedProbabilities\<close> calls throws.
\<close>

definition tables_built ::
    "'s MarkovChainWordGenerator \<Rightarrow> ProbabilityAndSequence list \<Rightarrow> ProbabilityAndSequence list
      \<Rightarrow> ProbabilityAndSequence list \<Rightarrow> bool" where
  "tables_built this probableBeginnings probableMiddles probableEndings =
     (case sequencingStrategy this (sampleSet this) of
        None \<Rightarrow> False
      | Some sequences \<Rightarrow>
          (let aggregatedSequences = aggregateSequences sequences;
               probabilities = getAggregatedSequenceProbabilities aggregatedSequences
           in getWeightedProbabilities probabilities BEGINNING = Inr probableBeginnings
              \<and> getWeightedProbabilities probabilities MIDDLE = Inr probableMiddles
              \<and> getWeightedProbabilities probabilities ENDING = Inr probableEndings))"

section \<open>Example data\<close>

text \<open>
  The aggregated sequences and the weighted tables of the corpus \<open>["Bab", "baB"]\<close> under
  the char-depth strategy with depth 1 that preserves case: the beginning table and the
  ending table are the same list, and the middle table has one entry.
\<close>

definition seq_B :: AggregatedSequence where
  "seq_B = \<lparr>chars = ''B'', frequencyBeginning = 1, frequencyMiddle = 0,
            frequencyEnding = 1, frequency = 2\<rparr>"

definition seq_a :: AggregatedSequence where
  "seq_a = \<lparr>chars = ''a'', frequencyBeginning = 0, frequencyMiddle = 2,
            frequencyEnding = 0, frequency = 2\<rparr>"

definition seq_b :: AggregatedSequence where
  "seq_b = \<lparr>chars = ''b'', frequencyBeginning = 1, frequencyMiddle = 0,
            frequencyEnding = 1, frequency = 2\<rparr>"

definition example_edges :: "ProbabilityAndSequence list" where
  "example_edges = [\<lparr>probability = 1 / 2, sequence = seq_B\<rparr>,
                    \<lparr>probability = 1, sequence = seq_b\<rparr>]"

definition example_middles :: "ProbabilityAndSequence list" where
  "example_middles = [\<lparr>probability = 1, sequence = seq_a\<rparr>]"

section \<open>The char-depth strategy: where the loop stops and what it tags\<close>


lemma offset_lt_iff:
  fixes d :: nat
  assumes "0 < d"
  shows "k * d < L \<longleftrightarrow> k < (L + d - 1) div d"
proof -
  have "k < (L + d - 1) div d \<longleftrightarrow> Suc k \<le> (L + d - 1) div d" by auto
  also have "\<dots> \<longleftrightarrow> Suc k * d \<le> L + d - 1"
    using assms by (simp add: less_eq_div_iff_mult_less_eq)
  also have "\<dots> \<longleftrightarrow> k * d < L" using assms by auto
  finally show ?thesis by simp
qed

lemma getSequencesOfSample_loop_closed:
  assumes "0 < depth this"
  shows "getSequencesOfSample_loop this sample (k * depth this) acc =
         Some (acc @ map (\<lambda>j. currentSequence this sample (j * depth this))
                       [k..<(length sample + depth this - 1) div depth this])"
proof (induction "(length sample + depth this - 1) div depth this - k" arbitrary: k acc)
  case 0
  then have "\<not> k < (length sample + depth this - 1) div depth this" by simp
  then have "\<not> k * depth this < length sample"
    using offset_lt_iff [OF assms] by simp
  with 0 show ?case
    by (subst getSequencesOfSample_loop.simps) simp
next
  case (Suc n)
  then have lt: "k < (length sample + depth this - 1) div depth this" by simp
  then have "k * depth this < length sample"
    using offset_lt_iff [OF assms] by simp
  moreover have "n = (length sample + depth this - 1) div depth this - Suc k"
    using Suc.hyps(2) by simp
  ultimately show ?case
    using Suc.hyps(1) [of "Suc k"] lt
    by (subst getSequencesOfSample_loop.simps) (simp add: upt_conv_Cons add.commute)
qed

lemma getSequencesOfSample_closed:
  assumes "0 < depth this"
  shows "getSequencesOfSample this sample =
         Some (map (\<lambda>j. currentSequence this sample (j * depth this))
                 [0..<(length sample + depth this - 1) div depth this])"
  using getSequencesOfSample_loop_closed [OF assms, of sample 0 "[]"]
  by (simp add: getSequencesOfSample_def)

lemma isEnding_currentSequence:
  "isEnding (currentSequence this sample i) \<longleftrightarrow> length sample \<le> i + 1"
  by (auto simp: currentSequence_def Let_def)

lemma length_toLowerCase: "length (toLowerCase s) = length s"
  by (simp add: toLowerCase_def)

lemma length_chars_currentSequence:
  "length (Sequence.chars (currentSequence this sample i)) = min (depth this) (length sample - i)"
  by (auto simp: currentSequence_def Let_def substring_def length_toLowerCase)


lemma getSequencesOfSet_closed:
  assumes "0 < depth this"
  shows "getSequencesOfSet this corpus =
         Some (concat (map (\<lambda>sample. map (\<lambda>j. currentSequence this sample (j * depth this))
                 [0..<(length sample + depth this - 1) div depth this]) corpus))"
  by (induction corpus) (simp_all add: getSequencesOfSample_closed [OF assms])

lemma final_offset_iff:
  fixes d L :: nat
  assumes "1 \<le> d" "1 \<le> L"
  shows "((L + d - 1) div d - 1) * d + 1 = L \<longleftrightarrow> d = 1 \<or> L mod d = 1"
proof (cases "d = 1")
  case True
  with assms show ?thesis by simp
next
  case False
  with assms have d: "1 < d" by simp
  let ?n = "(L + d - 1) div d"
  show ?thesis
  proof
    assume "(?n - 1) * d + 1 = L"
    then have "L mod d = ((?n - 1) * d + 1) mod d" by simp
    also have "\<dots> = 1 mod d" by (simp only: mod_mult_self3)
    also have "\<dots> = 1" using d by simp
    finally show "d = 1 \<or> L mod d = 1" by simp
  next
    assume "d = 1 \<or> L mod d = 1"
    with False have m: "L mod d = 1" by simp
    have L: "L = L div d * d + 1" using m div_mult_mod_eq [of L d] by simp
    have "L + d - 1 = (L div d + 1) * d" using L d by (simp add: algebra_simps)
    then have "?n = L div d + 1" using d by simp
    then show "(?n - 1) * d + 1 = L" using L by simp
  qed
qed

lemma aggregate_step_no_ending:
  assumes "\<not> isEnding s" and "\<forall>a\<in>snd ` set m. frequencyEnding a = 0"
  shows "\<forall>a\<in>snd ` set (aggregateSequences_step m s). frequencyEnding a = 0"
proof -
  have "frequencyEnding a = 0" if "Map_get m (Sequence.chars s) = Some a" for a
    using that assms(2) by (auto simp: Map_get_def dest!: map_of_SomeD intro: rev_image_eqI)
  then show ?thesis
    using assms
    by (auto simp: aggregateSequences_step_def Map_set_def Let_def split: option.splits)
qed

lemma aggregate_fold_no_ending:
  assumes "\<forall>s\<in>set seqs. \<not> isEnding s" and "\<forall>a\<in>snd ` set m. frequencyEnding a = 0"
  shows "\<forall>a\<in>snd ` set (foldl aggregateSequences_step m seqs). frequencyEnding a = 0"
  using assms
proof (induction seqs arbitrary: m)
  case Nil
  then show ?case by simp
next
  case (Cons s seqs)
  have 1: "\<not> isEnding s" using Cons.prems(1) by simp
  have 2: "\<forall>s\<in>set seqs. \<not> isEnding s" using Cons.prems(1) by simp
  have 3: "\<forall>a\<in>snd ` set (aggregateSequences_step m s). frequencyEnding a = 0"
    by (rule aggregate_step_no_ending [OF 1 Cons.prems(2)])
  show ?case unfolding foldl_Cons by (rule Cons.IH [OF 2 3])
qed

lemma aggregateSequences_no_ending:
  assumes "\<forall>s\<in>set seqs. \<not> isEnding s"
  shows "\<forall>a\<in>set (aggregateSequences seqs). frequencyEnding a = 0"
  using aggregate_fold_no_ending [OF assms, of "[]"]
  by (simp add: aggregateSequences_def Map_values_def)

lemma even_sample_no_ending:
  assumes "even (length sample)" and "j * 2 < length sample"
  shows "\<not> isEnding (currentSequence this sample (j * 2))"
proof -
  have "j * 2 + 1 \<noteq> length sample" using assms(1) by presburger
  with assms(2) show ?thesis by (simp add: isEnding_currentSequence)
qed

lemma charDepth_sample_facts:
  assumes d: "1 \<le> depth this" and L: "1 \<le> length sample"
  defines "n \<equiv> (length sample + depth this - 1) div depth this"
  defines "seqs \<equiv> map (\<lambda>j. currentSequence this sample (j * depth this)) [0..<n]"
  shows "getSequencesOfSample this sample = Some seqs"
    and "seqs \<noteq> []"
    and "(\<exists>s\<in>set seqs. isEnding s) \<longleftrightarrow> length (Sequence.chars (last seqs)) = 1"
    and "length (Sequence.chars (last seqs)) = 1 \<longleftrightarrow> depth this = 1 \<or> length sample mod depth this = 1"
    and "\<forall>k<length seqs. isEnding (seqs ! k) \<longrightarrow> k = length seqs - 1"
proof -
  from d have d0: "0 < depth this" by simp
  show s: "getSequencesOfSample this sample = Some seqs"
    unfolding seqs_def n_def by (rule getSequencesOfSample_closed [OF d0])
  have n0: "0 < n"
    using offset_lt_iff [OF d0, of 0 "length sample"] L by (cases sample) (simp_all add: n_def)
  then show ne: "seqs \<noteq> []" by (simp add: seqs_def)
  have len: "length seqs = n" by (simp add: seqs_def)
  have nth: "seqs ! k = currentSequence this sample (k * depth this)" if "k < n" for k
    using that by (simp add: seqs_def)
  have lt: "k * depth this < length sample" if "k < n" for k
    using that offset_lt_iff [OF d0, of k "length sample"] by (simp add: n_def)
  have endk: "isEnding (seqs ! k) \<longleftrightarrow> k * depth this + 1 = length sample" if "k < n" for k
    using lt [OF that] nth [OF that] by (auto simp: isEnding_currentSequence)
  have only_last: "k = n - 1" if "k < n" "isEnding (seqs ! k)" for k
  proof (rule ccontr)
    assume "k \<noteq> n - 1"
    with that(1) have "Suc k < n" by simp
    then have "Suc k * depth this < length sample" by (rule lt)
    moreover have "k * depth this + 1 = length sample" using endk that by simp
    ultimately show False using d0 by simp
  qed
  then show "\<forall>k<length seqs. isEnding (seqs ! k) \<longrightarrow> k = length seqs - 1"
    by (simp add: len)
  have last: "last seqs = seqs ! (n - 1)"
    using ne len by (simp add: last_conv_nth)
  have lastlt: "(n - 1) * depth this < length sample" using n0 by (intro lt) simp
  have ex_iff: "(\<exists>s\<in>set seqs. isEnding s) \<longleftrightarrow> isEnding (seqs ! (n - 1))"
  proof
    assume "\<exists>s\<in>set seqs. isEnding s"
    then obtain k where "k < n" "isEnding (seqs ! k)"
      by (auto simp: in_set_conv_nth len)
    then show "isEnding (seqs ! (n - 1))" using only_last by auto
  next
    assume "isEnding (seqs ! (n - 1))"
    moreover have "seqs ! (n - 1) \<in> set seqs" using n0 len by simp
    ultimately show "\<exists>s\<in>set seqs. isEnding s" by blast
  qed
  have end_last: "isEnding (seqs ! (n - 1)) \<longleftrightarrow> (n - 1) * depth this + 1 = length sample"
    using endk [of "n - 1"] n0 by simp
  have foff: "(n - 1) * depth this + 1 = length sample
      \<longleftrightarrow> depth this = 1 \<or> length sample mod depth this = 1"
    unfolding n_def by (rule final_offset_iff [OF d L])
  have lenlast: "length (Sequence.chars (last seqs)) = min (depth this) (length sample - (n - 1) * depth this)"
    using nth [of "n - 1"] n0 by (simp add: last length_chars_currentSequence)
  have len1: "length (Sequence.chars (last seqs)) = 1 \<longleftrightarrow> (n - 1) * depth this + 1 = length sample"
  proof (cases "depth this = 1")
    case True
    then have "(n - 1) * depth this + 1 = length sample" using foff by simp
    with True lenlast show ?thesis by simp
  next
    case False
    with d have "1 < depth this" by simp
    with lenlast lastlt show ?thesis by (auto simp: min_def)
  qed
  show "(\<exists>s\<in>set seqs. isEnding s) \<longleftrightarrow> length (Sequence.chars (last seqs)) = 1"
    using ex_iff end_last len1 by simp
  show "length (Sequence.chars (last seqs)) = 1 \<longleftrightarrow> depth this = 1 \<or> length sample mod depth this = 1"
    using len1 foff by simp
qed

lemma depth2_even_no_ending:
  assumes "depth this = 2" and "even (length sample)"
  shows "\<forall>s\<in>set (map (\<lambda>j. currentSequence this sample (j * depth this))
                 [0..<(length sample + depth this - 1) div depth this]). \<not> isEnding s"
proof -
  have "\<not> isEnding (currentSequence this sample (j * 2))"
    if "j < (length sample + 2 - 1) div 2" for j
  proof -
    have "j * 2 < length sample" using that offset_lt_iff [of 2 j "length sample"] by simp
    then show ?thesis using assms(2) by (rule even_sample_no_ending [rotated])
  qed
  then show ?thesis using assms(1) by auto
qed

section \<open>Claims about the char-depth strategy\<close>


text \<open>
  Claim C4.  The spec tags the single token of the sample \<open>"Go"\<close> under depth 2 as both
  beginning and ending.  The code asks whether a character follows offset \<open>i\<close>, not
  whether one follows the chunk, so the token \<open>"go"\<close> is tagged beginning only: it is
  not an ending.
\<close>

theorem charDepth_Go_depth2_not_ending:
  "getSequencesOfSample \<lparr>depth = 2, preserveCase = False\<rparr> ''Go''
       = Some [\<lparr>Sequence.chars = ''go'', isBeginning = True, isMiddle = False, isEnding = False\<rparr>]"
  by (simp add: getSequencesOfSample_def getSequencesOfSample_loop.simps currentSequence_def
      substring_def toLowerCase_def)

text \<open>
  Claim C10.  For a depth of at least 1 and a sample of at least one character, the call
  returns a non-empty list of sequences; one of them is tagged as ending if and only if
  the last one has exactly one character, which is the case if and only if the depth is 1
  or the length of the sample leaves the remainder 1 modulo the depth; and only the last
  sequence can be tagged as ending.  With depth 2 a sample of even length has no sequence
  tagged as ending, and a corpus of such samples aggregates to sequences whose ending
  frequency is zero.
\<close>

theorem charDepth_ending_tag:
  "(1 \<le> depth this \<and> 1 \<le> length sample \<longrightarrow>
      (\<exists>seqs. getSequencesOfSample this sample = Some seqs \<and> seqs \<noteq> []
         \<and> ((\<exists>s\<in>set seqs. isEnding s) \<longleftrightarrow> length (Sequence.chars (last seqs)) = 1)
         \<and> (length (Sequence.chars (last seqs)) = 1
              \<longleftrightarrow> depth this = 1 \<or> length sample mod depth this = 1)
         \<and> (\<forall>k<length seqs. isEnding (seqs ! k) \<longrightarrow> k = length seqs - 1)
         \<and> (depth this = 2 \<and> even (length sample) \<longrightarrow> (\<forall>s\<in>set seqs. \<not> isEnding s))))
   \<and> (depth this = 2 \<and> (\<forall>sample\<in>set corpus. even (length sample)) \<longrightarrow>
      (\<exists>seqs. getSequencesOfSet this corpus = Some seqs
         \<and> (\<forall>a\<in>set (aggregateSequences seqs). frequencyEnding a = 0)))"
proof (intro conjI impI)
  assume a: "1 \<le> depth this \<and> 1 \<le> length sample"
  let ?seqs = "map (\<lambda>j. currentSequence this sample (j * depth this))
                 [0..<(length sample + depth this - 1) div depth this]"
  from a have d: "1 \<le> depth this" and L: "1 \<le> length sample" by simp_all
  have "getSequencesOfSample this sample = Some ?seqs"
    by (rule charDepth_sample_facts(1) [OF d L])
  moreover have "?seqs \<noteq> []"
    by (rule charDepth_sample_facts(2) [OF d L])
  moreover have "(\<exists>s\<in>set ?seqs. isEnding s) \<longleftrightarrow> length (Sequence.chars (last ?seqs)) = 1"
    by (rule charDepth_sample_facts(3) [OF d L])
  moreover have "length (Sequence.chars (last ?seqs)) = 1
      \<longleftrightarrow> depth this = 1 \<or> length sample mod depth this = 1"
    by (rule charDepth_sample_facts(4) [OF d L])
  moreover have "\<forall>k<length ?seqs. isEnding (?seqs ! k) \<longrightarrow> k = length ?seqs - 1"
    by (rule charDepth_sample_facts(5) [OF d L])
  moreover have "depth this = 2 \<and> even (length sample) \<longrightarrow> (\<forall>s\<in>set ?seqs. \<not> isEnding s)"
    using depth2_even_no_ending [of this sample] by blast
  ultimately show "\<exists>seqs. getSequencesOfSample this sample = Some seqs \<and> seqs \<noteq> []
         \<and> ((\<exists>s\<in>set seqs. isEnding s) \<longleftrightarrow> length (Sequence.chars (last seqs)) = 1)
         \<and> (length (Sequence.chars (last seqs)) = 1
              \<longleftrightarrow> depth this = 1 \<or> length sample mod depth this = 1)
         \<and> (\<forall>k<length seqs. isEnding (seqs ! k) \<longrightarrow> k = length seqs - 1)
         \<and> (depth this = 2 \<and> even (length sample) \<longrightarrow> (\<forall>s\<in>set seqs. \<not> isEnding s))"
    by blast
next
  assume a: "depth this = 2 \<and> (\<forall>sample\<in>set corpus. even (length sample))"
  let ?seqs = "concat (map (\<lambda>sample. map (\<lambda>j. currentSequence this sample (j * depth this))
                 [0..<(length sample + depth this - 1) div depth this]) corpus)"
  from a have d0: "0 < depth this" by simp
  have s: "getSequencesOfSet this corpus = Some ?seqs"
    by (rule getSequencesOfSet_closed [OF d0])
  have "\<forall>s\<in>set ?seqs. \<not> isEnding s"
  proof
    fix s assume "s \<in> set ?seqs"
    then obtain sample where sm: "sample \<in> set corpus"
      and "s \<in> set (map (\<lambda>j. currentSequence this sample (j * depth this))
                 [0..<(length sample + depth this - 1) div depth this])"
      by auto
    moreover have "even (length sample)" using a sm by blast
    ultimately show "\<not> isEnding s"
      using depth2_even_no_ending [of this sample] a by blast
  qed
  then have "\<forall>a\<in>set (aggregateSequences ?seqs). frequencyEnding a = 0"
    by (rule aggregateSequences_no_ending)
  with s show "\<exists>seqs. getSequencesOfSet this corpus = Some seqs
         \<and> (\<forall>a\<in>set (aggregateSequences seqs). frequencyEnding a = 0)"
    by blast
qed


text \<open>
  The theorem at the samples \<open>"Bob"\<close> and \<open>"Gobo"\<close> and the corpus \<open>["Go", "Gobo"]\<close>,
  depth 2.
\<close>

theorem charDepth_ending_tag_witness:
  "(\<exists>seqs. getSequencesOfSample \<lparr>depth = 2, preserveCase = False\<rparr> ''Bob'' = Some seqs
       \<and> seqs \<noteq> [] \<and> (\<exists>s\<in>set seqs. isEnding s) \<and> length (Sequence.chars (last seqs)) = 1)
   \<and> (\<exists>seqs. getSequencesOfSample \<lparr>depth = 2, preserveCase = False\<rparr> ''Gobo'' = Some seqs
       \<and> seqs \<noteq> [] \<and> \<not> (\<exists>s\<in>set seqs. isEnding s) \<and> length (Sequence.chars (last seqs)) \<noteq> 1)
   \<and> (\<exists>seqs. getSequencesOfSet \<lparr>depth = 2, preserveCase = False\<rparr> [''Go'', ''Gobo''] = Some seqs
       \<and> (\<forall>a\<in>set (aggregateSequences seqs). frequencyEnding a = 0))"
proof -
  let ?S = "\<lparr>depth = 2, preserveCase = False\<rparr>"
  have h1: "1 \<le> depth ?S \<and> 1 \<le> length ''Bob''" by simp
  have h2: "1 \<le> depth ?S \<and> 1 \<le> length ''Gobo''" by simp
  have h3: "depth ?S = 2 \<and> (\<forall>sample\<in>set [''Go'', ''Gobo'']. even (length sample))" by simp
  have h4: "depth ?S = 2 \<and> even (length ''Gobo'')" by simp
  have h5: "depth ?S = 1 \<or> length ''Bob'' mod depth ?S = 1" by simp
  have h6: "\<not> (depth ?S = 1 \<or> length ''Gobo'' mod depth ?S = 1)" by simp
  from charDepth_ending_tag [of ?S "''Bob''" "[''Go'', ''Gobo'']"] h1 h5
  have A: "\<exists>seqs. getSequencesOfSample ?S ''Bob'' = Some seqs
       \<and> seqs \<noteq> [] \<and> (\<exists>s\<in>set seqs. isEnding s) \<and> length (Sequence.chars (last seqs)) = 1"
    by blast
  from charDepth_ending_tag [of ?S "''Gobo''" "[''Go'', ''Gobo'']"] h2 h4 h6
  have B: "\<exists>seqs. getSequencesOfSample ?S ''Gobo'' = Some seqs
       \<and> seqs \<noteq> [] \<and> \<not> (\<exists>s\<in>set seqs. isEnding s) \<and> length (Sequence.chars (last seqs)) \<noteq> 1"
    by blast
  from charDepth_ending_tag [of ?S "''Gobo''" "[''Go'', ''Gobo'']"] h3
  have C: "\<exists>seqs. getSequencesOfSet ?S [''Go'', ''Gobo''] = Some seqs
       \<and> (\<forall>a\<in>set (aggregateSequences seqs). frequencyEnding a = 0)"
    by blast
  from A B C show ?thesis by blast
qed

section \<open>Weighted tables and draws\<close>


lemma sort_insert_comparefn: "sort_insert comparefn x ys = x # ys"
  by (cases ys) (simp_all add: SortCompare_def comparefn_def)

lemma Array_sort_comparefn: "Array_sort comparefn xs = xs"
  unfolding Array_sort_def by (induction xs) (simp_all add: sort_insert_comparefn)

lemma getWeightedProbabilities_Inr:
  assumes "getWeightedProbabilities probabilities type = Inr t"
  shows "t \<noteq> []" and "ProbabilityAndSequence.probability (last t) = 1"
proof -
  from assms obtain w where w: "length w \<noteq> 0"
    and t: "t = w[length w - 1 := (w ! (length w - 1))\<lparr>probability := 1\<rparr>]"
    unfolding getWeightedProbabilities_def Let_def by (auto split: if_splits)
  from w t show "t \<noteq> []" by auto
  from w have "w \<noteq> []" by auto
  then have "last t = (w ! (length w - 1))\<lparr>probability := 1\<rparr>"
    unfolding t by (simp add: last_list_update)
  then show "ProbabilityAndSequence.probability (last t) = 1" by simp
qed

lemma getWeightedProbabilities_never_empty:
  "getWeightedProbabilities probabilities type \<noteq> Inr []"
  using getWeightedProbabilities_Inr(1) by blast

lemma getMatchingSequence_find:
  "getMatchingSequence t v =
     (case List.find (\<lambda>e. v \<le> ProbabilityAndSequence.probability e) t of
        None \<Rightarrow> Inl (FailedToGetItem v)
      | Some e \<Rightarrow> Inr e)"
  by (induction t) simp_all

lemma getMatchingSequence_hit:
  assumes "e \<in> set t" and "v \<le> ProbabilityAndSequence.probability e"
  shows "\<exists>e'\<in>set t. getMatchingSequence t v = Inr e'"
  using assms
proof (induction t)
  case Nil
  then show ?case by simp
next
  case (Cons x t)
  show ?case
  proof (cases "v \<le> ProbabilityAndSequence.probability x")
    case True
    then show ?thesis by simp
  next
    case False
    with Cons.prems have "e \<in> set t" by auto
    from Cons.IH [OF this Cons.prems(2)] False show ?thesis by simp
  qed
qed

lemma getMatchingSequence_built:
  assumes "getWeightedProbabilities probabilities type = Inr t" and "v \<le> 1"
  shows "\<exists>e\<in>set t. getMatchingSequence t v = Inr e"
proof -
  from getWeightedProbabilities_Inr [OF assms(1)]
  have "last t \<in> set t" and "v \<le> ProbabilityAndSequence.probability (last t)"
    using assms(2) by simp_all
  then show ?thesis by (rule getMatchingSequence_hit)
qed

section \<open>Claims about weighted tables and draws\<close>


text \<open>
  Claim C2.  The spec orders each weighted table by ascending individual probability.
  The comparator of the code returns nothing, so the sort leaves every list as it is and
  a table keeps the order in which the sequences were first seen: for the corpus \<open>["aba", "aba", "bab"]\<close> under depth 1 the
  beginning probabilities are 2/3 for \<open>"a"\<close> and 1/3 for \<open>"b"\<close>, and the table lists
  \<open>"a"\<close> (cumulative 2/3) before \<open>"b"\<close> (cumulative 1).
\<close>

theorem weighted_table_keeps_insertion_order:
  "Array_sort comparefn xs = xs
   \<and> map_option
       (\<lambda>seqs. let probabilities = getAggregatedSequenceProbabilities (aggregateSequences seqs)
               in (map (\<lambda>it. (AggregatedSequence.chars (AggregatedSequenceProbabilities.sequence it),
                               probabilityBeginning it)) probabilities,
                   map_sum id (map (\<lambda>e. (AggregatedSequence.chars (ProbabilityAndSequence.sequence e),
                                          ProbabilityAndSequence.probability e)))
                     (getWeightedProbabilities probabilities BEGINNING)))
       (getSequencesOfSet \<lparr>depth = 1, preserveCase = False\<rparr> [''aba'', ''aba'', ''bab''])
     = Some ([(''a'', 2 / 3), (''b'', 1 / 3)], Inr [(''a'', 2 / 3), (''b'', 1)])"
proof (rule conjI)
  show "Array_sort comparefn xs = xs" by (rule Array_sort_comparefn)
  show "map_option
       (\<lambda>seqs. let probabilities = getAggregatedSequenceProbabilities (aggregateSequences seqs)
               in (map (\<lambda>it. (AggregatedSequence.chars (AggregatedSequenceProbabilities.sequence it),
                               probabilityBeginning it)) probabilities,
                   map_sum id (map (\<lambda>e. (AggregatedSequence.chars (ProbabilityAndSequence.sequence e),
                                          ProbabilityAndSequence.probability e)))
                     (getWeightedProbabilities probabilities BEGINNING)))
       (getSequencesOfSet \<lparr>depth = 1, preserveCase = False\<rparr> [''aba'', ''aba'', ''bab''])
     = Some ([(''a'', 2 / 3), (''b'', 1 / 3)], Inr [(''a'', 2 / 3), (''b'', 1)])"
    by code_simp
qed

text \<open>
  Claim C3.  The spec returns an empty table when no sequence has a positive probability
  for the role.  The code assigns to the last entry of the table without looking at its
  length: it raises a \<open>TypeError\<close> on an empty list of probabilities and never returns
  an empty table.  For the corpus \<open>["Bob"]\<close> under depth 2 no sequence is a middle, building the
  middle table raises a \<open>TypeError\<close>, and so does \<open>generate\<close>.
\<close>

theorem empty_role_table_raises_TypeError:
  "getWeightedProbabilities [] type = Inl TypeError
   \<and> getWeightedProbabilities probabilities type \<noteq> Inr []
   \<and> map_option
       (\<lambda>seqs. getWeightedProbabilities
                 (getAggregatedSequenceProbabilities (aggregateSequences seqs)) MIDDLE)
       (getSequencesOfSet \<lparr>depth = 2, preserveCase = False\<rparr> [''Bob''])
     = Some (Inl TypeError)
   \<and> map_option fst
       (generate \<lparr>sampleSet = [''Bob''], targetLengthMin = 3, targetLengthMax = 3, seed = None,
                  sequencingStrategy = getSequencesOfSet \<lparr>depth = 2, preserveCase = False\<rparr>,
                  spellingStrategy = None, rng = scripted_rng []\<rparr> 1)
     = Some (Inl TypeError)"
proof (intro conjI)
  show "getWeightedProbabilities [] type = Inl TypeError"
    by (cases type) (simp_all add: getWeightedProbabilities_def Array_sort_def)
  show "getWeightedProbabilities probabilities type \<noteq> Inr []"
    by (rule getWeightedProbabilities_never_empty)
  show "map_option
       (\<lambda>seqs. getWeightedProbabilities
                 (getAggregatedSequenceProbabilities (aggregateSequences seqs)) MIDDLE)
       (getSequencesOfSet \<lparr>depth = 2, preserveCase = False\<rparr> [''Bob''])
     = Some (Inl TypeError)"
    by code_simp
  show "map_option fst
       (generate \<lparr>sampleSet = [''Bob''], targetLengthMin = 3, targetLengthMax = 3, seed = None,
                  sequencingStrategy = getSequencesOfSet \<lparr>depth = 2, preserveCase = False\<rparr>,
                  spellingStrategy = None, rng = scripted_rng []\<rparr> 1)
     = Some (Inl TypeError)"
    by code_simp
qed

text \<open>
  Claim C9.  A draw returns the first entry, in the order of the table, whose cumulative
  probability is at least the random value, and fails when there is none.  A table built
  by \<open>_getWeightedProbabilities\<close> is not empty and its last entry has the cumulative
  probability 1, so a draw with a value in \<open>[0, 1]\<close> returns one of its entries; a draw
  from the empty table fails, and the empty table is never built.
\<close>

theorem draw_first_qualifying_entry:
  "getMatchingSequence t v =
     (case List.find (\<lambda>e. v \<le> ProbabilityAndSequence.probability e) t of
        None \<Rightarrow> Inl (FailedToGetItem v)
      | Some e \<Rightarrow> Inr e)
   \<and> (getWeightedProbabilities probabilities type = Inr t' \<and> 0 \<le> r \<and> r \<le> 1
        \<longrightarrow> t' \<noteq> [] \<and> ProbabilityAndSequence.probability (last t') = 1
            \<and> (\<exists>e\<in>set t'. getMatchingSequence t' r = Inr e))
   \<and> getMatchingSequence [] v = Inl (FailedToGetItem v)
   \<and> getWeightedProbabilities probabilities type \<noteq> Inr []"
proof (intro conjI impI)
  show "getMatchingSequence t v =
     (case List.find (\<lambda>e. v \<le> ProbabilityAndSequence.probability e) t of
        None \<Rightarrow> Inl (FailedToGetItem v)
      | Some e \<Rightarrow> Inr e)"
    by (rule getMatchingSequence_find)
next
  assume a: "getWeightedProbabilities probabilities type = Inr t' \<and> 0 \<le> r \<and> r \<le> 1"
  then show "t' \<noteq> []" using getWeightedProbabilities_Inr(1) by blast
  from a show "ProbabilityAndSequence.probability (last t') = 1"
    using getWeightedProbabilities_Inr(2) by blast
  from a show "\<exists>e\<in>set t'. getMatchingSequence t' r = Inr e"
    using getMatchingSequence_built by blast
next
  show "getMatchingSequence [] v = Inl (FailedToGetItem v)" by simp
next
  show "getWeightedProbabilities probabilities type \<noteq> Inr []"
    by (rule getWeightedProbabilities_never_empty)
qed


text \<open>
  The theorem at the beginning table of two aggregated sequences and the value 7/10.
\<close>

theorem draw_first_qualifying_entry_witness:
  "getWeightedProbabilities
     (getAggregatedSequenceProbabilities
        [\<lparr>chars = ''a'', frequencyBeginning = 2, frequencyMiddle = 1,
          frequencyEnding = 2, frequency = 5\<rparr>,
         \<lparr>chars = ''b'', frequencyBeginning = 1, frequencyMiddle = 2,
          frequencyEnding = 1, frequency = 4\<rparr>]) BEGINNING
   = Inr [\<lparr>probability = 2 / 3,
           sequence = \<lparr>chars = ''a'', frequencyBeginning = 2, frequencyMiddle = 1,
                        frequencyEnding = 2, frequency = 5\<rparr>\<rparr>,
          \<lparr>probability = 1,
           sequence = \<lparr>chars = ''b'', frequencyBeginning = 1, frequencyMiddle = 2,
                        frequencyEnding = 1, frequency = 4\<rparr>\<rparr>]
   \<and> (0 :: rat) \<le> 7 / 10 \<and> (7 / 10 :: rat) \<le> 1
   \<and> (\<exists>e\<in>set [\<lparr>probability = 2 / 3,
                  sequence = \<lparr>chars = ''a'', frequencyBeginning = 2, frequencyMiddle = 1,
                               frequencyEnding = 2, frequency = 5\<rparr>\<rparr>,
                 \<lparr>probability = 1,
                  sequence = \<lparr>chars = ''b'', frequencyBeginning = 1, frequencyMiddle = 2,
                               frequencyEnding = 1, frequency = 4\<rparr>\<rparr>].
         getMatchingSequence
           [\<lparr>probability = 2 / 3,
             sequence = \<lparr>chars = ''a'', frequencyBeginning = 2, frequencyMiddle = 1,
                          frequencyEnding = 2, frequency = 5\<rparr>\<rparr>,
            \<lparr>probability = 1,
             sequence = \<lparr>chars = ''b'', frequencyBeginning = 1, frequencyMiddle = 2,
                          frequencyEnding = 1, frequency = 4\<rparr>\<rparr>] (7 / 10) = Inr e)"
  (is "?build = Inr ?T \<and> ?lo \<and> ?hi \<and> ?hit")
proof -
  have b: "?build = Inr ?T" by code_simp
  have lo: ?lo and hi: ?hi by simp_all
  from draw_first_qualifying_entry [of _ _ _ BEGINNING ?T "7 / 10"] b lo hi
  have ?hit by blast
  with b lo hi show ?thesis by blast
qed

section \<open>Claims about construction\<close>


lemma isInteger_Some: "isInteger (Some r) \<longleftrightarrow> r \<in> \<int>"
  by (auto simp: isInteger_def Ints_def)

lemma parseInt_of_int: "parseInt (of_int n) = n"
  by (simp add: parseInt_def)

lemma parseInt_nonpos: "r \<in> \<int> \<Longrightarrow> parseInt r \<le> 0 \<longleftrightarrow> r \<le> 0"
  by (auto simp: Ints_def parseInt_of_int)

lemma bad_length_iff:
  "isInteger v \<noteq> True \<or> parseInt (the v) \<le> 0
     \<longleftrightarrow> v = None \<or> (\<exists>r. v = Some r \<and> (r \<le> 0 \<or> r \<notin> \<int>))"
proof (cases v)
  case None
  then show ?thesis by (simp add: isInteger_def)
next
  case (Some r)
  then show ?thesis using parseInt_nonpos [of r] by (auto simp: isInteger_Some)
qed

lemma bad_depth:
  assumes "r \<le> 0 \<or> r \<notin> \<int>"
  shows "CharDepthSequencingStrategy_new (Some r) pc = Inl DepthError"
  using assms bad_length_iff [of "Some r"]
  by (simp add: CharDepthSequencingStrategy_new_def)

text \<open>
  Claim C8.  The constructor of the generator throws, and so yields no object, when the
  sample set is missing or empty; when, that check passed, the minimum target length is
  missing, not positive or not an integer; when, those passed, the maximum target length
  is missing, not positive or not an integer; and when, those passed, the sequencing
  strategy is missing.  The constructor of the char-depth strategy throws for a depth
  that is not positive or not an integer, 0 included.  With a non-empty sample set, two
  positive integers and a sequencing strategy, construction succeeds whatever the seed
  and the spelling strategy are, absent included.
\<close>

theorem constructor_validation:
  "(args.sampleSet a = None \<or> args.sampleSet a = Some []
      \<longrightarrow> MarkovChainWordGenerator_new m a = Inl SampleSetError)
   \<and> (args.sampleSet a = Some ss \<and> ss \<noteq> []
        \<and> (args.targetLengthMin a = None
             \<or> (\<exists>r. args.targetLengthMin a = Some r \<and> (r \<le> 0 \<or> r \<notin> \<int>)))
      \<longrightarrow> MarkovChainWordGenerator_new m a = Inl TargetLengthMinError)
   \<and> (args.sampleSet a = Some ss \<and> ss \<noteq> []
        \<and> args.targetLengthMin a = Some (of_int lo) \<and> 0 < lo
        \<and> (args.targetLengthMax a = None
             \<or> (\<exists>r. args.targetLengthMax a = Some r \<and> (r \<le> 0 \<or> r \<notin> \<int>)))
      \<longrightarrow> MarkovChainWordGenerator_new m a = Inl TargetLengthMaxError)
   \<and> (args.sampleSet a = Some ss \<and> ss \<noteq> []
        \<and> args.targetLengthMin a = Some (of_int lo) \<and> 0 < lo
        \<and> args.targetLengthMax a = Some (of_int hi) \<and> 0 < hi
        \<and> args.sequencingStrategy a = None
      \<longrightarrow> MarkovChainWordGenerator_new m a = Inl SequencingStrategyError)
   \<and> (r \<le> 0 \<or> r \<notin> \<int> \<longrightarrow> CharDepthSequencingStrategy_new (Some r) pc = Inl DepthError)
   \<and> (args.sampleSet a = Some ss \<and> ss \<noteq> []
        \<and> args.targetLengthMin a = Some (of_int lo) \<and> 0 < lo
        \<and> args.targetLengthMax a = Some (of_int hi) \<and> 0 < hi
        \<and> args.sequencingStrategy a = Some st
      \<longrightarrow> (\<exists>g. MarkovChainWordGenerator_new m a = Inr g)
          \<and> (\<exists>g. MarkovChainWordGenerator_new m
                    (a\<lparr>args.seed := None, args.spellingStrategy := None\<rparr>) = Inr g))"
proof (intro conjI impI)
  assume "args.sampleSet a = None \<or> args.sampleSet a = Some []"
  then show "MarkovChainWordGenerator_new m a = Inl SampleSetError"
    by (auto simp: MarkovChainWordGenerator_new_def)
next
  assume h: "args.sampleSet a = Some ss \<and> ss \<noteq> []
        \<and> (args.targetLengthMin a = None
             \<or> (\<exists>r. args.targetLengthMin a = Some r \<and> (r \<le> 0 \<or> r \<notin> \<int>)))"
  then have "isInteger (args.targetLengthMin a) \<noteq> True \<or> parseInt (the (args.targetLengthMin a)) \<le> 0"
    by (simp only: bad_length_iff)
  with h show "MarkovChainWordGenerator_new m a = Inl TargetLengthMinError"
    by (simp add: MarkovChainWordGenerator_new_def)
next
  assume h: "args.sampleSet a = Some ss \<and> ss \<noteq> []
        \<and> args.targetLengthMin a = Some (of_int lo) \<and> 0 < lo
        \<and> (args.targetLengthMax a = None
             \<or> (\<exists>r. args.targetLengthMax a = Some r \<and> (r \<le> 0 \<or> r \<notin> \<int>)))"
  then have "isInteger (args.targetLengthMax a) \<noteq> True \<or> parseInt (the (args.targetLengthMax a)) \<le> 0"
    by (simp only: bad_length_iff)
  with h show "MarkovChainWordGenerator_new m a = Inl TargetLengthMaxError"
    by (simp add: MarkovChainWordGenerator_new_def isInteger_Some parseInt_of_int)
next
  assume h: "args.sampleSet a = Some ss \<and> ss \<noteq> []
        \<and> args.targetLengthMin a = Some (of_int lo) \<and> 0 < lo
        \<and> args.targetLengthMax a = Some (of_int hi) \<and> 0 < hi
        \<and> args.sequencingStrategy a = None"
  then show "MarkovChainWordGenerator_new m a = Inl SequencingStrategyError"
    by (simp add: MarkovChainWordGenerator_new_def isInteger_Some parseInt_of_int)
next
  assume "r \<le> 0 \<or> r \<notin> \<int>"
  then show "CharDepthSequencingStrategy_new (Some r) pc = Inl DepthError"
    by (rule bad_depth)
next
  assume h: "args.sampleSet a = Some ss \<and> ss \<noteq> []
        \<and> args.targetLengthMin a = Some (of_int lo) \<and> 0 < lo
        \<and> args.targetLengthMax a = Some (of_int hi) \<and> 0 < hi
        \<and> args.sequencingStrategy a = Some st"
  then show "\<exists>g. MarkovChainWordGenerator_new m a = Inr g"
    by (simp add: MarkovChainWordGenerator_new_def isInteger_Some parseInt_of_int)
  from h show "\<exists>g. MarkovChainWordGenerator_new m
                    (a\<lparr>args.seed := None, args.spellingStrategy := None\<rparr>) = Inr g"
    by (simp add: MarkovChainWordGenerator_new_def isInteger_Some parseInt_of_int)
qed


text \<open>
  The theorem at the arguments of the end-to-end scenario of the tests, each made invalid
  in one of the ways above.
\<close>

theorem constructor_validation_witness:
  "(let a = \<lparr>args.sampleSet = Some [''Bob'', ''Gobob'', ''Bobby''],
              args.targetLengthMin = Some 3,
              args.targetLengthMax = Some 4,
              args.sequencingStrategy = Some (getSequencesOfSet \<lparr>depth = 2, preserveCase = False\<rparr>),
              args.seed = Some ''Test1234567890'',
              args.spellingStrategy = Some BeginningCapitals_apply\<rparr>
    in MarkovChainWordGenerator_new scripted (a\<lparr>args.sampleSet := Some []\<rparr>) = Inl SampleSetError
       \<and> MarkovChainWordGenerator_new scripted (a\<lparr>args.sampleSet := None\<rparr>) = Inl SampleSetError
       \<and> MarkovChainWordGenerator_new scripted (a\<lparr>args.targetLengthMin := Some 0\<rparr>)
           = Inl TargetLengthMinError
       \<and> MarkovChainWordGenerator_new scripted (a\<lparr>args.targetLengthMax := Some (7 / 2)\<rparr>)
           = Inl TargetLengthMaxError
       \<and> MarkovChainWordGenerator_new scripted (a\<lparr>args.sequencingStrategy := None\<rparr>)
           = Inl SequencingStrategyError
       \<and> CharDepthSequencingStrategy_new (Some 0) None = Inl DepthError
       \<and> (\<exists>g. MarkovChainWordGenerator_new scripted a = Inr g)
       \<and> (\<exists>g. MarkovChainWordGenerator_new scripted
                 (a\<lparr>args.seed := None, args.spellingStrategy := None\<rparr>) = Inr g))"
  (is "let a = ?A in _")
proof -
  let ?ss = "[''Bob'', ''Gobob'', ''Bobby'']"
  have half: "(7 / 2 :: rat) \<notin> \<int>"
  proof
    assume "(7 / 2 :: rat) \<in> \<int>"
    then obtain n :: int where n: "(7 / 2 :: rat) = of_int n" by (auto simp: Ints_def)
    then have "(of_int 7 :: rat) = of_int (2 * n)" by simp
    then have "7 = 2 * n" by (simp only: of_int_eq_iff)
    then show False by presburger
  qed
  let ?st = "getSequencesOfSet \<lparr>depth = 2, preserveCase = False\<rparr>"
  have c1: "MarkovChainWordGenerator_new scripted (?A\<lparr>args.sampleSet := Some []\<rparr>) = Inl SampleSetError"
    using constructor_validation [of "?A\<lparr>args.sampleSet := Some []\<rparr>" scripted ?ss 3 4 0 None ?st]
    by simp
  have c2: "MarkovChainWordGenerator_new scripted (?A\<lparr>args.sampleSet := None\<rparr>) = Inl SampleSetError"
    using constructor_validation [of "?A\<lparr>args.sampleSet := None\<rparr>" scripted ?ss 3 4 0 None ?st]
    by simp
  have c3: "MarkovChainWordGenerator_new scripted (?A\<lparr>args.targetLengthMin := Some 0\<rparr>)
      = Inl TargetLengthMinError"
    using constructor_validation [of "?A\<lparr>args.targetLengthMin := Some 0\<rparr>" scripted ?ss 3 4 0 None ?st]
    by simp
  have c4: "MarkovChainWordGenerator_new scripted (?A\<lparr>args.targetLengthMax := Some (7 / 2)\<rparr>)
      = Inl TargetLengthMaxError"
  proof -
    let ?X = "?A\<lparr>args.targetLengthMax := Some (7 / 2)\<rparr>"
    have "args.sampleSet ?X = Some ?ss \<and> ?ss \<noteq> []
        \<and> args.targetLengthMin ?X = Some (of_int 3) \<and> 0 < (3 :: int)
        \<and> (args.targetLengthMax ?X = None
             \<or> (\<exists>r. args.targetLengthMax ?X = Some r \<and> (r \<le> 0 \<or> r \<notin> \<int>)))"
      using half by (intro conjI disjI2 exI [of _ "7 / 2"]) simp_all
    then show ?thesis
      using constructor_validation [of ?X scripted ?ss 3 4 0 None ?st] by blast
  qed
  have c5: "MarkovChainWordGenerator_new scripted (?A\<lparr>args.sequencingStrategy := None\<rparr>)
      = Inl SequencingStrategyError"
    using constructor_validation [of "?A\<lparr>args.sequencingStrategy := None\<rparr>" scripted ?ss 3 4 0 None ?st]
    by simp
  have c6: "CharDepthSequencingStrategy_new (Some 0) None = Inl DepthError"
    using constructor_validation [of ?A scripted ?ss 3 4 0 None ?st]
    by simp
  have c7: "(\<exists>g. MarkovChainWordGenerator_new scripted ?A = Inr g)
       \<and> (\<exists>g. MarkovChainWordGenerator_new scripted
                 (?A\<lparr>args.seed := None, args.spellingStrategy := None\<rparr>) = Inr g)"
    using constructor_validation [of ?A scripted ?ss 3 4 0 None ?st]
    by simp
  show ?thesis
    unfolding Let_def using c1 c2 c3 c4 c5 c6 c7 by blast
qed

section \<open>Assembling one word: what a returned word is made of\<close>


lemma rng_after_0: "rng_after 0 r = r"
  by (simp add: rng_after_def)

lemma rng_after_Suc: "rng_after (Suc k) r = rng_after k (snd (rng_generate r))"
  unfolding rng_after_def by (simp only: funpow_Suc_right o_apply)

lemma rng_after_add: "rng_after (j + k) r = rng_after k (rng_after j r)"
  by (induction j arbitrary: r) (simp_all add: rng_after_0 rng_after_Suc)

lemma all_less_Suc_split: "(\<forall>k<Suc n. P k) \<longleftrightarrow> P 0 \<and> (\<forall>k<n. P (Suc k))"
proof (intro iffI conjI allI impI)
  assume a: "\<forall>k<Suc n. P k"
  then show "P 0" by simp
  fix k assume "k < n"
  with a show "P (Suc k)" by simp
next
  fix k assume a: "P 0 \<and> (\<forall>k<n. P (Suc k))" and k: "k < Suc n"
  show "P k"
  proof (cases k)
    case 0
    with a show ?thesis by simp
  next
    case (Suc j)
    with k have "j < n" by simp
    with a have "P (Suc j)" by blast
    with Suc show ?thesis by simp
  qed
qed

lemma middle_loop_Inr:
  assumes "middle_loop M target len acc r = Some (Inr res, r')"
  shows "\<exists>items. res = acc @ map ProbabilityAndSequence.sequence items
           \<and> draws M (length items) r = map Inr items
           \<and> (\<forall>k<length items. int (len + sum_list (map charsLength (take k items))) < target)
           \<and> \<not> int (len + sum_list (map charsLength items)) < target
           \<and> r' = rng_after (length items) r"
proof -
  define P where "P = (\<lambda>M target len acc (r :: 'a RandomSeeded)
                          (y :: (error + AggregatedSequence list) \<times> 'a RandomSeeded).
      \<forall>res r'. y = (Inr res, r') \<longrightarrow>
          (\<exists>items. res = acc @ map ProbabilityAndSequence.sequence items
           \<and> draws M (length items) r = map Inr items
           \<and> (\<forall>k<length items. int (len + sum_list (map charsLength (take k items))) < target)
           \<and> \<not> int (len + sum_list (map charsLength items)) < target
           \<and> r' = rng_after (length items) r))"
  have "P M target len acc r (Inr res, r')"
  proof (rule middle_loop.raw_induct [where P = P, OF _ assms])
    fix f :: "ProbabilityAndSequence list \<Rightarrow> int \<Rightarrow> nat \<Rightarrow> AggregatedSequence list \<Rightarrow> 'a RandomSeeded
                \<Rightarrow> ((error + AggregatedSequence list) \<times> 'a RandomSeeded) option"
    fix M target len acc r y
    assume IH: "\<And>M target len acc r y. f M target len acc r = Some y \<Longrightarrow> P M target len acc r y"
    assume step: "(if int len < target
      then case getMatchingSequence M (fst (rng_generate r)) of
           Inl e \<Rightarrow> Some (Inl e, snd (rng_generate r))
           | Inr item \<Rightarrow>
               f M target
                (len + length (AggregatedSequence.chars (ProbabilityAndSequence.sequence item)))
                (acc @ [ProbabilityAndSequence.sequence item])
                (snd (rng_generate r))
      else Some (Inr acc, r)) = Some y"
    show "P M target len acc r y"
      unfolding P_def
    proof (intro allI impI)
      fix res r'
      assume y: "y = (Inr res, r')"
      show "\<exists>items. res = acc @ map ProbabilityAndSequence.sequence items
           \<and> draws M (length items) r = map Inr items
           \<and> (\<forall>k<length items. int (len + sum_list (map charsLength (take k items))) < target)
           \<and> \<not> int (len + sum_list (map charsLength items)) < target
           \<and> r' = rng_after (length items) r"
      proof (cases "int len < target")
        case False
        with step y have "res = acc" "r' = r" by simp_all
        with False show ?thesis
          by (intro exI [of _ "[]"]) (simp add: rng_after_0)
      next
        case True
        show ?thesis
        proof (cases "getMatchingSequence M (fst (rng_generate r))")
          case (Inl e)
          with True step y show ?thesis by simp
        next
          case (Inr item)
          with True step
          have call: "f M target (len + charsLength item)
                        (acc @ [ProbabilityAndSequence.sequence item]) (snd (rng_generate r)) = Some y"
            by (simp add: charsLength_def)
          from IH [OF call] y obtain items
            where res: "res = (acc @ [ProbabilityAndSequence.sequence item])
                            @ map ProbabilityAndSequence.sequence items"
              and dr: "draws M (length items) (snd (rng_generate r)) = map Inr items"
              and lt: "\<forall>k<length items.
                        int (len + charsLength item + sum_list (map charsLength (take k items))) < target"
              and ge: "\<not> int (len + charsLength item + sum_list (map charsLength items)) < target"
              and r': "r' = rng_after (length items) (snd (rng_generate r))"
            unfolding P_def by blast
          have "res = acc @ map ProbabilityAndSequence.sequence (item # items)"
            using res by simp
          moreover have "draws M (length (item # items)) r = map Inr (item # items)"
            using dr Inr by simp
          moreover have "\<forall>k<length (item # items).
                int (len + sum_list (map charsLength (take k (item # items)))) < target"
            using lt True by (simp add: all_less_Suc_split add.assoc)
          moreover have "\<not> int (len + sum_list (map charsLength (item # items))) < target"
            using ge by (simp add: add.assoc)
          moreover have "r' = rng_after (length (item # items)) r"
            using r' by (simp add: rng_after_Suc)
          ultimately show ?thesis by blast
        qed
      qed
    qed
  qed
  then show ?thesis unfolding P_def by blast
qed


lemma getMatchingSequence_mem:
  "getMatchingSequence t v = Inr item \<Longrightarrow> item \<in> set t"
  by (induction t) (auto split: if_splits)

lemma middle_loop_returns:
  assumes "\<forall>m\<in>set M. 0 < charsLength m"
  shows "\<exists>y. middle_loop M target len acc r = Some y"
proof (induction "nat (target - int len)" arbitrary: len acc r rule: less_induct)
  case less
  show ?case
  proof (cases "int len < target")
    case False
    then show ?thesis by (subst middle_loop.simps) simp
  next
    case True
    show ?thesis
    proof (cases "getMatchingSequence M (fst (rng_generate r))")
      case (Inl e)
      with True show ?thesis by (subst middle_loop.simps) simp
    next
      case (Inr item)
      then have "item \<in> set M" by (rule getMatchingSequence_mem)
      with assms have pos: "0 < charsLength item" by blast
      with True have "nat (target - int (len + charsLength item)) < nat (target - int len)"
        by simp
      from less [OF this]
      obtain y where "middle_loop M target (len + charsLength item)
          (acc @ [ProbabilityAndSequence.sequence item]) (snd (rng_generate r)) = Some y"
        by blast
      with True Inr show ?thesis
        by (subst middle_loop.simps) (simp add: charsLength_def)
    qed
  qed
qed

lemma generateSingleWord_returns:
  assumes "\<forall>m\<in>set M. 0 < charsLength m"
  shows "\<exists>y. generateSingleWord B M E lo hi rng0 = Some y"
proof -
  obtain t r1 where g1: "rng_generate_between rng0 lo hi = (t, r1)"
    by (cases "rng_generate_between rng0 lo hi")
  obtain rb r2 where g2: "rng_generate r1 = (rb, r2)"
    by (cases "rng_generate r1")
  obtain re r3 where g3: "rng_generate r2 = (re, r3)"
    by (cases "rng_generate r2")
  show ?thesis
  proof (cases "getMatchingSequence B rb")
    case (Inl e)
    then show ?thesis unfolding generateSingleWord_def by (simp add: g1 g2)
  next
    case b: (Inr b)
    show ?thesis
    proof (cases "getMatchingSequence E re")
      case (Inl e)
      then show ?thesis unfolding generateSingleWord_def by (simp add: g1 g2 g3 b)
    next
      case e: (Inr en)
      obtain res r4 where
        "middle_loop M (round t)
           (length (chars (ProbabilityAndSequence.sequence b))
            + length (chars (ProbabilityAndSequence.sequence en)))
           [ProbabilityAndSequence.sequence b] r3 = Some (res, r4)"
        using middle_loop_returns [OF assms] by (metis surj_pair)
      then show ?thesis
        unfolding generateSingleWord_def by (cases res) (simp_all add: g1 g2 g3 b e)
    qed
  qed
qed

lemma generateSingleWord_Inr:
  assumes "generateSingleWord B M E lo hi rng0 = Some (Inr word, rng')"
  shows "\<exists>b e items.
      getMatchingSequence B (fst (rng_generate (snd (rng_generate_between rng0 lo hi)))) = Inr b
    \<and> getMatchingSequence E
          (fst (rng_generate (rng_after 1 (snd (rng_generate_between rng0 lo hi))))) = Inr e
    \<and> draws M (length items) (rng_after 2 (snd (rng_generate_between rng0 lo hi))) = map Inr items
    \<and> (\<forall>k<length items.
          int (charsLength b + charsLength e + sum_list (map charsLength (take k items)))
            < round (fst (rng_generate_between rng0 lo hi)))
    \<and> \<not> int (charsLength b + charsLength e + sum_list (map charsLength items))
            < round (fst (rng_generate_between rng0 lo hi))
    \<and> word = chars (ProbabilityAndSequence.sequence b)
             @ concat (map (\<lambda>item. chars (ProbabilityAndSequence.sequence item)) items)
             @ chars (ProbabilityAndSequence.sequence e)
    \<and> rng' = rng_after (2 + length items) (snd (rng_generate_between rng0 lo hi))"
proof -
  let ?r1 = "snd (rng_generate_between rng0 lo hi)"
  let ?target = "round (fst (rng_generate_between rng0 lo hi))"
  let ?r2 = "snd (rng_generate ?r1)"
  let ?r3 = "snd (rng_generate ?r2)"
  have r2: "rng_after 1 ?r1 = ?r2" by (simp add: rng_after_def)
  have r3: "rng_after 2 ?r1 = ?r3" by (simp add: rng_after_def numeral_2_eq_2)
  from assms obtain b where b: "getMatchingSequence B (fst (rng_generate ?r1)) = Inr b"
    unfolding generateSingleWord_def Let_def
    by (auto split: prod.splits sum.splits option.splits)
  from assms b obtain e where e: "getMatchingSequence E (fst (rng_generate ?r2)) = Inr e"
    unfolding generateSingleWord_def Let_def
    by (auto split: prod.splits sum.splits option.splits)
  from assms b e obtain res
    where loop: "middle_loop M ?target (charsLength b + charsLength e)
                   [ProbabilityAndSequence.sequence b] ?r3 = Some (Inr res, rng')"
      and word: "word = concat (map chars (res @ [ProbabilityAndSequence.sequence e]))"
    unfolding generateSingleWord_def Let_def charsLength_def
    by (auto split: prod.splits sum.splits option.splits)
  from middle_loop_Inr [OF loop] obtain items
    where res: "res = [ProbabilityAndSequence.sequence b] @ map ProbabilityAndSequence.sequence items"
      and dr: "draws M (length items) ?r3 = map Inr items"
      and lt: "\<forall>k<length items.
                 int (charsLength b + charsLength e + sum_list (map charsLength (take k items))) < ?target"
      and ge: "\<not> int (charsLength b + charsLength e + sum_list (map charsLength items)) < ?target"
      and r': "rng' = rng_after (length items) ?r3"
    by blast
  have w: "word = chars (ProbabilityAndSequence.sequence b)
             @ concat (map (\<lambda>item. chars (ProbabilityAndSequence.sequence item)) items)
             @ chars (ProbabilityAndSequence.sequence e)"
    unfolding word res by (simp add: comp_def)
  have r'': "rng' = rng_after (2 + length items) ?r1"
    unfolding r' rng_after_add r3 ..
  from b e dr lt ge w r'' show ?thesis
    unfolding r2 r3 by blast
qed

section \<open>Claims about assembling one word\<close>


lemma example_tables_built:
  "map_option
     (\<lambda>seqs. let probabilities = getAggregatedSequenceProbabilities (aggregateSequences seqs)
             in (getWeightedProbabilities probabilities BEGINNING,
                 getWeightedProbabilities probabilities MIDDLE,
                 getWeightedProbabilities probabilities ENDING))
     (getSequencesOfSet \<lparr>depth = 1, preserveCase = True\<rparr> [''Bab'', ''baB''])
   = Some (Inr example_edges, Inr example_middles, Inr example_edges)"
  by code_simp

text \<open>
  Claim C6.  When one assembly attempt returns a word: the target length is the rounded
  value of \<open>generate(minLength, maxLength)\<close>; the next value draws the beginning from
  the beginning table and the one after it draws the ending from the ending table; the
  following values draw the middles, one after the other, from the middle table; before
  each middle is drawn the lengths of the beginning, the ending and the middles so far
  add up to less than the target, and after the last one they do not (so the target can
  be exceeded by less than the length of the last middle); the word is the characters of
  the beginning, then of the middles in the order drawn, then of the ending; and the
  random number generator is left after these draws.  When every entry of the middle
  table has at least one character, the attempt returns, with a word or an error.
\<close>

theorem single_word_assembly:
  "(generateSingleWord B M E lo hi rng0 = Some (Inr word, rng') \<longrightarrow>
     (\<exists>b e items.
        getMatchingSequence B (fst (rng_generate (snd (rng_generate_between rng0 lo hi)))) = Inr b
      \<and> getMatchingSequence E
            (fst (rng_generate (rng_after 1 (snd (rng_generate_between rng0 lo hi))))) = Inr e
      \<and> draws M (length items) (rng_after 2 (snd (rng_generate_between rng0 lo hi))) = map Inr items
      \<and> (\<forall>k<length items.
            int (charsLength b + charsLength e + sum_list (map charsLength (take k items)))
              < round (fst (rng_generate_between rng0 lo hi)))
      \<and> \<not> int (charsLength b + charsLength e + sum_list (map charsLength items))
              < round (fst (rng_generate_between rng0 lo hi))
      \<and> word = chars (ProbabilityAndSequence.sequence b)
               @ concat (map (\<lambda>item. chars (ProbabilityAndSequence.sequence item)) items)
               @ chars (ProbabilityAndSequence.sequence e)
      \<and> rng' = rng_after (2 + length items) (snd (rng_generate_between rng0 lo hi))))
   \<and> ((\<forall>m\<in>set M. 0 < charsLength m) \<longrightarrow> (\<exists>y. generateSingleWord B M E lo hi rng0 = Some y))"
  using generateSingleWord_Inr [of B M E lo hi rng0 word rng']
    generateSingleWord_returns [of M B E lo hi rng0]
  by blast

text \<open>
  The theorem at the example tables, the target length 4 and a script of five draws: the
  word is \<open>"Baab"\<close>, with two middles.
\<close>

theorem single_word_assembly_witness:
  "generateSingleWord example_edges example_middles example_edges 4 4
     (scripted_rng [1 / 2, 1 / 4, 3 / 4, 1 / 8, 5 / 8]) = Some (Inr ''Baab'', scripted_rng [])
   \<and> (\<exists>b e items.
        getMatchingSequence example_edges (1 / 4) = Inr b
      \<and> getMatchingSequence example_edges (3 / 4) = Inr e
      \<and> draws example_middles (length items) (scripted_rng [1 / 8, 5 / 8]) = map Inr items
      \<and> \<not> int (charsLength b + charsLength e + sum_list (map charsLength items)) < 4
      \<and> ''Baab'' = chars (ProbabilityAndSequence.sequence b)
               @ concat (map (\<lambda>item. chars (ProbabilityAndSequence.sequence item)) items)
               @ chars (ProbabilityAndSequence.sequence e))
   \<and> (\<exists>y. generateSingleWord example_edges example_middles example_edges 4 4
             (scripted_rng [1 / 2, 1 / 4, 3 / 4, 1 / 8, 5 / 8]) = Some y)"
proof -
  let ?r = "scripted_rng [1 / 2, 1 / 4, 3 / 4, 1 / 8, 5 / 8]"
  have run: "generateSingleWord example_edges example_middles example_edges 4 4 ?r
      = Some (Inr ''Baab'', scripted_rng [])"
    by (simp add: generateSingleWord_def middle_loop.simps rng_generate_between_def
        rng_generate_def scripted_rng_def scripted_def example_edges_def example_middles_def
        seq_B_def seq_a_def seq_b_def)
  have mids: "\<forall>m\<in>set example_middles. 0 < charsLength m"
    by (simp add: example_middles_def charsLength_def seq_a_def)
  have r1: "snd (rng_generate_between ?r 4 4) = scripted_rng [1 / 4, 3 / 4, 1 / 8, 5 / 8]"
    and t: "round (fst (rng_generate_between ?r 4 4)) = 4"
    and rb: "fst (rng_generate (scripted_rng [1 / 4, 3 / 4, 1 / 8, 5 / 8])) = 1 / 4"
    and r2: "rng_after 1 (scripted_rng [1 / 4, 3 / 4, 1 / 8, 5 / 8]) = scripted_rng [3 / 4, 1 / 8, 5 / 8]"
    and re: "fst (rng_generate (scripted_rng [3 / 4, 1 / 8, 5 / 8])) = 3 / 4"
    and r3: "rng_after 2 (scripted_rng [1 / 4, 3 / 4, 1 / 8, 5 / 8]) = scripted_rng [1 / 8, 5 / 8]"
    by (simp_all add: rng_generate_between_def rng_generate_def rng_after_def scripted_rng_def
        scripted_def numeral_2_eq_2)
  from single_word_assembly [of example_edges example_middles example_edges 4 4 ?r "''Baab''"
      "scripted_rng []"] run mids
  show ?thesis
    unfolding r1 t rb r2 re r3 by blast
qed

section \<open>The retry loop\<close>


lemma ga_stop:
  assumes "repetitionMaximum \<le> attempt"
  shows "generate_attempts B M E lo hi words attempt word r
         = Some (Inl (MaximumTriesExceeded None), r)"
  using assms by (subst generate_attempts.simps) simp

lemma ga_none:
  assumes "attempt < repetitionMaximum" and "generateSingleWord B M E lo hi r = None"
  shows "generate_attempts B M E lo hi words attempt word r = None"
  using assms by (subst generate_attempts.simps) simp

lemma ga_word_new:
  assumes "attempt < repetitionMaximum" and "generateSingleWord B M E lo hi r = Some (Inr w, r1)"
    and "w \<notin> set words"
  shows "generate_attempts B M E lo hi words attempt word r = Some (Inr w, r1)"
  using assms by (subst generate_attempts.simps) simp

lemma ga_word_dup:
  assumes "attempt < repetitionMaximum" and "generateSingleWord B M E lo hi r = Some (Inr w, r1)"
    and "w \<in> set words"
  shows "generate_attempts B M E lo hi words attempt word r
         = generate_attempts B M E lo hi words (attempt + 1) (Some w) r1"
  using assms by (subst generate_attempts.simps) simp

lemma ga_error_last:
  assumes "attempt < repetitionMaximum" and "repetitionMaximum \<le> attempt + 1"
    and "generateSingleWord B M E lo hi r = Some (Inl e, r1)"
  shows "generate_attempts B M E lo hi words attempt word r
         = Some (Inl (MaximumTriesExceeded (Some e)), r1)"
  using assms by (subst generate_attempts.simps) simp

lemma ga_error_retry:
  assumes "attempt + 1 < repetitionMaximum"
    and "generateSingleWord B M E lo hi r = Some (Inl e, r1)"
    and "word = None \<or> (\<exists>w. word = Some w \<and> w \<in> set words)"
  shows "generate_attempts B M E lo hi words attempt word r
         = generate_attempts B M E lo hi words (attempt + 1) word r1"
  using assms by (subst generate_attempts.simps) auto


lemma ao_nil: "attempts_outcome words 0 (Inl (MaximumTriesExceeded c)) []"
  by (simp add: attempts_outcome_def)

lemma ao_single_word:
  "w \<notin> set words \<Longrightarrow> 0 < limit \<Longrightarrow> attempts_outcome words limit (Inr w) [Inr w]"
  by (simp add: attempts_outcome_def)

lemma ao_single_error: "attempts_outcome words 1 (Inl (MaximumTriesExceeded c)) [Inl e]"
  by (simp add: attempts_outcome_def failed_attempt_def)

lemma ao_cons:
  assumes "failed_attempt words x" and "attempts_outcome words limit res outcomes"
  shows "attempts_outcome words (Suc limit) res (x # outcomes)"
proof (cases res)
  case (Inl e)
  with assms show ?thesis by (simp add: attempts_outcome_def)
next
  case (Inr w)
  with assms have "outcomes \<noteq> []" by (auto simp: attempts_outcome_def)
  with assms Inr show ?thesis by (simp add: attempts_outcome_def)
qed

lemma attempts_trace_cons:
  assumes "generateSingleWord B M E lo hi r = Some (x, r1)"
    and "attempts_trace B M E lo hi k r1 = Some (xs, r2)"
  shows "attempts_trace B M E lo hi (Suc k) r = Some (x # xs, r2)"
  using assms by simp

lemma generate_attempts_trace:
  assumes "generate_attempts B M E lo hi words attempt word r = Some (res, r')"
    and "word = None \<or> (\<exists>w. word = Some w \<and> w \<in> set words)"
  shows "\<exists>outcomes. attempts_trace B M E lo hi (length outcomes) r = Some (outcomes, r')
           \<and> attempts_outcome words (repetitionMaximum - attempt) res outcomes"
  using assms
proof (induction "repetitionMaximum - attempt" arbitrary: attempt word r)
  case 0
  then have "repetitionMaximum \<le> attempt" by simp
  from ga_stop [OF this, of B M E lo hi words word r] "0.prems"(1)
  have "res = Inl (MaximumTriesExceeded None)" "r' = r" by simp_all
  moreover have "attempts_trace B M E lo hi (length ([] :: (error + string) list)) r = Some ([], r)"
    by simp
  ultimately show ?case using ao_nil "0.hyps" by metis
next
  case (Suc n)
  then have lt: "attempt < repetitionMaximum" by simp
  from Suc.hyps(2) have n: "n = repetitionMaximum - (attempt + 1)" by simp
  show ?case
  proof (cases "generateSingleWord B M E lo hi r")
    case None
    from ga_none [OF lt None, of words word] Suc.prems(1) show ?thesis by simp
  next
    case (Some p)
    then obtain x r1 where step: "generateSingleWord B M E lo hi r = Some (x, r1)"
      by (cases p) simp
    have one: "attempts_trace B M E lo hi (length [x]) r = Some ([x], r1)"
      using step by simp
    show ?thesis
    proof (cases x)
      case (Inr w)
      show ?thesis
      proof (cases "w \<in> set words")
        case False
        from ga_word_new [OF lt step [unfolded Inr] False, of word] Suc.prems(1)
        have "res = Inr w" "r' = r1" by simp_all
        moreover have "attempts_outcome words (repetitionMaximum - attempt) (Inr w) [Inr w]"
          using False lt by (intro ao_single_word) simp_all
        ultimately show ?thesis using one Inr by blast
      next
        case True
        from ga_word_dup [OF lt step [unfolded Inr] True, of word] Suc.prems(1)
        have "generate_attempts B M E lo hi words (attempt + 1) (Some w) r1 = Some (res, r')"
          by simp
        from Suc.hyps(1) [OF n this] True obtain outcomes
          where tr: "attempts_trace B M E lo hi (length outcomes) r1 = Some (outcomes, r')"
            and ao: "attempts_outcome words (repetitionMaximum - (attempt + 1)) res outcomes"
          by blast
        have "attempts_trace B M E lo hi (length (x # outcomes)) r = Some (x # outcomes, r')"
          using attempts_trace_cons [OF step tr] by simp
        moreover have "failed_attempt words x"
          using True Inr by (simp add: failed_attempt_def)
        from ao_cons [OF this ao]
        have "attempts_outcome words (repetitionMaximum - attempt) res (x # outcomes)"
          using lt by (simp add: Suc_diff_Suc)
        ultimately show ?thesis by blast
      qed
    next
      case (Inl e)
      have failed: "failed_attempt words x"
        using Inl by (simp add: failed_attempt_def)
      show ?thesis
      proof (cases "repetitionMaximum \<le> attempt + 1")
        case True
        from ga_error_last [OF lt True step [unfolded Inl], of words word] Suc.prems(1)
        have "res = Inl (MaximumTriesExceeded (Some e))" "r' = r1" by simp_all
        moreover from lt True have "repetitionMaximum - attempt = 1" by simp
        ultimately show ?thesis using one Inl ao_single_error by metis
      next
        case False
        then have "attempt + 1 < repetitionMaximum" by simp
        from ga_error_retry [OF this step [unfolded Inl] Suc.prems(2)] Suc.prems(1)
        have "generate_attempts B M E lo hi words (attempt + 1) word r1 = Some (res, r')"
          by simp
        from Suc.hyps(1) [OF n this Suc.prems(2)] obtain outcomes
          where tr: "attempts_trace B M E lo hi (length outcomes) r1 = Some (outcomes, r')"
            and ao: "attempts_outcome words (repetitionMaximum - (attempt + 1)) res outcomes"
          by blast
        have "attempts_trace B M E lo hi (length (x # outcomes)) r = Some (x # outcomes, r')"
          using attempts_trace_cons [OF step tr] by simp
        moreover from ao_cons [OF failed ao]
        have "attempts_outcome words (repetitionMaximum - attempt) res (x # outcomes)"
          using lt by (simp add: Suc_diff_Suc)
        ultimately show ?thesis by blast
      qed
    qed
  qed
qed

lemma generate_attempts_returns:
  assumes "\<forall>m\<in>set M. 0 < charsLength m"
    and "word = None \<or> (\<exists>w. word = Some w \<and> w \<in> set words)"
  shows "\<exists>y. generate_attempts B M E lo hi words attempt word r = Some y"
  using assms(2)
proof (induction "repetitionMaximum - attempt" arbitrary: attempt word r)
  case 0
  then have "repetitionMaximum \<le> attempt" by simp
  from ga_stop [OF this, of B M E lo hi words word r] show ?case by blast
next
  case (Suc n)
  then have lt: "attempt < repetitionMaximum" by simp
  from Suc.hyps(2) have n: "n = repetitionMaximum - (attempt + 1)" by simp
  from generateSingleWord_returns [OF assms(1)] obtain x r1
    where step: "generateSingleWord B M E lo hi r = Some (x, r1)"
    by (metis surj_pair)
  show ?case
  proof (cases x)
    case (Inr w)
    show ?thesis
    proof (cases "w \<in> set words")
      case False
      from ga_word_new [OF lt step [unfolded Inr] False, of word] show ?thesis by blast
    next
      case True
      from Suc.hyps(1) [OF n, of "Some w" r1] True
        ga_word_dup [OF lt step [unfolded Inr] True, of word]
      show ?thesis by simp
    qed
  next
    case (Inl e)
    show ?thesis
    proof (cases "repetitionMaximum \<le> attempt + 1")
      case True
      from ga_error_last [OF lt True step [unfolded Inl], of words word] show ?thesis by blast
    next
      case False
      then have "attempt + 1 < repetitionMaximum" by simp
      from ga_error_retry [OF this step [unfolded Inl] Suc.prems]
        Suc.hyps(1) [OF n Suc.prems, of r1]
      show ?thesis by simp
    qed
  qed
qed

section \<open>The loop over the requested words\<close>


lemma gw_done:
  assumes "\<not> i < howMany"
  shows "generate_words B M E lo hi howMany i words r = Some (Inr words, r)"
  using assms by (subst generate_words.simps) simp

lemma gw_none:
  assumes "i < howMany" and "generate_attempts B M E lo hi words 0 None r = None"
  shows "generate_words B M E lo hi howMany i words r = None"
  using assms by (subst generate_words.simps) simp

lemma gw_abort:
  assumes "i < howMany" and "generate_attempts B M E lo hi words 0 None r = Some (Inl e, r1)"
  shows "generate_words B M E lo hi howMany i words r = Some (Inl e, r1)"
  using assms by (subst generate_words.simps) simp

lemma gw_step:
  assumes "i < howMany" and "generate_attempts B M E lo hi words 0 None r = Some (Inr w, r1)"
  shows "generate_words B M E lo hi howMany i words r
         = generate_words B M E lo hi howMany (i + 1) (words @ [w]) r1"
  using assms by (subst generate_words.simps) simp

lemma generate_attempts_Inr_fresh:
  assumes "generate_attempts B M E lo hi words 0 None r = Some (Inr w, r1)"
  shows "w \<notin> set words"
  using generate_attempts_trace [OF assms] by (auto simp: attempts_outcome_def)

lemma generate_attempts_Inl_exhausted:
  assumes "generate_attempts B M E lo hi words 0 None r = Some (Inl e, r1)"
  shows "\<exists>c. e = MaximumTriesExceeded c"
  using generate_attempts_trace [OF assms] by (cases e) (auto simp: attempts_outcome_def)

lemma generate_words_result:
  assumes "generate_words B M E lo hi howMany i words r = Some (res, r')"
    and "distinct words" and "length words = i" and "i \<le> howMany"
  shows "case res of
           Inl e \<Rightarrow> \<exists>c. e = MaximumTriesExceeded c
         | Inr ws \<Rightarrow> distinct ws \<and> length ws = howMany"
  using assms
proof (induction "howMany - i" arbitrary: i words r)
  case 0
  then have ge: "\<not> i < howMany" by simp
  with "0.prems"(4) have "i = howMany" by simp
  with gw_done [OF ge, of B M E lo hi words r] "0.prems"
  show ?case by auto
next
  case (Suc n)
  then have lt: "i < howMany" by simp
  from Suc.hyps(2) have n: "n = howMany - (i + 1)" by simp
  show ?case
  proof (cases "generate_attempts B M E lo hi words 0 None r")
    case None
    from gw_none [OF lt None] Suc.prems(1) show ?thesis by simp
  next
    case (Some p)
    then obtain x r1 where ga: "generate_attempts B M E lo hi words 0 None r = Some (x, r1)"
      by (cases p) simp
    show ?thesis
    proof (cases x)
      case (Inl e)
      from gw_abort [OF lt ga [unfolded Inl]] Suc.prems(1) have "res = Inl e" by simp
      with generate_attempts_Inl_exhausted [OF ga [unfolded Inl]] show ?thesis by simp
    next
      case (Inr w)
      from gw_step [OF lt ga [unfolded Inr]] Suc.prems(1)
      have call: "generate_words B M E lo hi howMany (i + 1) (words @ [w]) r1 = Some (res, r')"
        by simp
      have "w \<notin> set words" by (rule generate_attempts_Inr_fresh [OF ga [unfolded Inr]])
      with Suc.prems(2) have d: "distinct (words @ [w])" by simp
      have l: "length (words @ [w]) = i + 1" using Suc.prems(3) by simp
      have le: "i + 1 \<le> howMany" using lt by simp
      from Suc.hyps(1) [OF n call d l le] show ?thesis .
    qed
  qed
qed

lemma generate_words_returns:
  assumes "\<forall>m\<in>set M. 0 < charsLength m"
  shows "\<exists>y. generate_words B M E lo hi howMany i words r = Some y"
proof (induction "howMany - i" arbitrary: i words r)
  case 0
  then have "\<not> i < howMany" by simp
  from gw_done [OF this, of B M E lo hi words r] show ?case by blast
next
  case (Suc n)
  then have lt: "i < howMany" by simp
  from Suc.hyps(2) have n: "n = howMany - (i + 1)" by simp
  from generate_attempts_returns [OF assms, of None words B E lo hi 0 r]
  obtain x r1 where ga: "generate_attempts B M E lo hi words 0 None r = Some (x, r1)"
    by (metis surj_pair)
  show ?case
  proof (cases x)
    case (Inl e)
    from gw_abort [OF lt ga [unfolded Inl]] show ?thesis by blast
  next
    case (Inr w)
    from gw_step [OF lt ga [unfolded Inr]] Suc.hyps(1) [OF n, of "words @ [w]" r1]
    show ?thesis by simp
  qed
qed



lemma generate_words_chain:
  assumes "generate_words B M E lo hi n i words r = Some (Inr ws, r')"
    and "length words = i" and "i \<le> n"
  shows "\<exists>rs. length rs = n - i + 1 \<and> rs ! 0 = r \<and> rs ! (n - i) = r'
           \<and> length ws = n \<and> take i ws = words
           \<and> (\<forall>j. i \<le> j \<and> j < n \<longrightarrow>
                  generate_attempts B M E lo hi (take j ws) 0 None (rs ! (j - i))
                  = Some (Inr (ws ! j), rs ! Suc (j - i)))"
  using assms
proof (induction "n - i" arbitrary: i words r)
  case 0
  then have ge: "\<not> i < n" and i: "i = n" by simp_all
  from gw_done [OF ge, of B M E lo hi words r] "0.prems"(1)
  have ws: "ws = words" and r': "r' = r" by simp_all
  have "length [r] = n - i + 1 \<and> [r] ! 0 = r \<and> [r] ! (n - i) = r'
           \<and> length ws = n \<and> take i ws = words
           \<and> (\<forall>j. i \<le> j \<and> j < n \<longrightarrow>
                  generate_attempts B M E lo hi (take j ws) 0 None ([r] ! (j - i))
                  = Some (Inr (ws ! j), [r] ! Suc (j - i)))"
    using i ws r' "0.prems"(2) by auto
  then show ?case by blast
next
  case (Suc k)
  then have lt: "i < n" by simp
  from Suc.hyps(2) have k: "k = n - (i + 1)" by simp
  show ?case
  proof (cases "generate_attempts B M E lo hi words 0 None r")
    case None
    from gw_none [OF lt None] Suc.prems(1) show ?thesis by simp
  next
    case (Some p)
    then obtain x r1 where ga: "generate_attempts B M E lo hi words 0 None r = Some (x, r1)"
      by (cases p) simp
    show ?thesis
    proof (cases x)
      case (Inl e)
      from gw_abort [OF lt ga [unfolded Inl]] Suc.prems(1) show ?thesis by simp
    next
      case (Inr w)
      note ga' = ga [unfolded Inr]
      from gw_step [OF lt ga'] Suc.prems(1)
      have call: "generate_words B M E lo hi n (i + 1) (words @ [w]) r1 = Some (Inr ws, r')"
        by simp
      have l: "length (words @ [w]) = i + 1" using Suc.prems(2) by simp
      have le: "i + 1 \<le> n" using lt by simp
      from Suc.hyps(1) [OF k call l le] obtain rs
        where len: "length rs = n - (i + 1) + 1"
          and first: "rs ! 0 = r1"
          and final: "rs ! (n - (i + 1)) = r'"
          and lws: "length ws = n"
          and pre: "take (i + 1) ws = words @ [w]"
          and chain: "\<forall>j. i + 1 \<le> j \<and> j < n \<longrightarrow>
                  generate_attempts B M E lo hi (take j ws) 0 None (rs ! (j - (i + 1)))
                  = Some (Inr (ws ! j), rs ! Suc (j - (i + 1)))"
        by blast
      have iw: "i < length ws" using lws lt by simp
      from pre have "take i ws @ [ws ! i] = words @ [w]"
        using iw by (simp add: take_Suc_conv_app_nth)
      then have tk: "take i ws = words" and wi: "ws ! i = w" by simp_all
      have c1: "length (r # rs) = n - i + 1" using len lt by simp
      have c2: "(r # rs) ! 0 = r" by simp
      have c3: "(r # rs) ! (n - i) = r'"
      proof -
        from lt have "n - i = Suc (n - (i + 1))" by simp
        then show ?thesis using final by simp
      qed
      have c4: "\<forall>j. i \<le> j \<and> j < n \<longrightarrow>
                  generate_attempts B M E lo hi (take j ws) 0 None ((r # rs) ! (j - i))
                  = Some (Inr (ws ! j), (r # rs) ! Suc (j - i))"
      proof (intro allI impI)
        fix j assume j: "i \<le> j \<and> j < n"
        show "generate_attempts B M E lo hi (take j ws) 0 None ((r # rs) ! (j - i))
                  = Some (Inr (ws ! j), (r # rs) ! Suc (j - i))"
        proof (cases "j = i")
          case True
          with ga' tk wi first show ?thesis by simp
        next
          case False
          with j have j1: "i + 1 \<le> j \<and> j < n" by simp
          from False j have d: "j - i = Suc (j - (i + 1))" by arith
          from chain j1 show ?thesis unfolding d by simp
        qed
      qed
      from c1 c2 c3 lws tk c4 show ?thesis by blast
    qed
  qed
qed

lemma generate_words_abort_chain:
  assumes k: "length acc = k" and kn: "k < n" and len: "length rs = k + 1"
    and chain: "\<forall>j<k. generate_attempts B M E lo hi (take j acc) 0 None (rs ! j)
                  = Some (Inr (acc ! j), rs ! Suc j)"
    and throw: "generate_attempts B M E lo hi acc 0 None (rs ! k) = Some (Inl e, r1)"
  shows "generate_words B M E lo hi n 0 [] (rs ! 0) = Some (Inl e, r1)"
proof -
  have "generate_words B M E lo hi n i (take i acc) (rs ! i) = Some (Inl e, r1)" if "i \<le> k" for i
    using that
  proof (induction "k - i" arbitrary: i)
    case 0
    then have "i = k" by simp
    with k throw kn show ?case by (intro gw_abort) simp_all
  next
    case (Suc d)
    then have ik: "i < k" by simp
    with kn have lt: "i < n" by simp
    from Suc.hyps(2) have d: "d = k - (i + 1)" by simp
    from chain ik have ga: "generate_attempts B M E lo hi (take i acc) 0 None (rs ! i)
                  = Some (Inr (acc ! i), rs ! Suc i)" by blast
    have "take i acc @ [acc ! i] = take (i + 1) acc"
      using ik k by (simp add: take_Suc_conv_app_nth)
    with gw_step [OF lt ga] Suc.hyps(1) [OF d] ik show ?case by simp
  qed
  from this [of 0] show ?thesis by simp
qed

lemma generate_words_Inl_source:
  assumes "generate_words B M E lo hi n i words r = Some (Inl e, r')"
  shows "\<exists>acc r0. generate_attempts B M E lo hi acc 0 None r0 = Some (Inl e, r')"
  using assms
proof (induction "n - i" arbitrary: i words r)
  case 0
  then have ge: "\<not> i < n" by simp
  from gw_done [OF ge, of B M E lo hi words r] "0.prems" show ?case by simp
next
  case (Suc k)
  then have lt: "i < n" by simp
  from Suc.hyps(2) have k: "k = n - (i + 1)" by simp
  show ?case
  proof (cases "generate_attempts B M E lo hi words 0 None r")
    case None
    from gw_none [OF lt None] Suc.prems show ?thesis by simp
  next
    case (Some p)
    then obtain x r1 where ga: "generate_attempts B M E lo hi words 0 None r = Some (x, r1)"
      by (cases p) simp
    show ?thesis
    proof (cases x)
      case (Inl e0)
      from gw_abort [OF lt ga [unfolded Inl]] Suc.prems have "e0 = e" "r1 = r'" by simp_all
      with ga Inl show ?thesis by blast
    next
      case (Inr w)
      from gw_step [OF lt ga [unfolded Inr]] Suc.prems
      have "generate_words B M E lo hi n (i + 1) (words @ [w]) r1 = Some (Inl e, r')" by simp
      from Suc.hyps(1) [OF k this] show ?thesis .
    qed
  qed
qed

section \<open>What a call of generate returns or throws\<close>


lemma getWeightedProbabilities_Inl:
  "getWeightedProbabilities probabilities type = Inl e \<Longrightarrow> e = TypeError"
  unfolding getWeightedProbabilities_def Let_def by (simp split: if_splits)

lemma generate_unfold:
  assumes "sequencingStrategy this (sampleSet this) = Some seqs"
    and "getWeightedProbabilities (getAggregatedSequenceProbabilities (aggregateSequences seqs))
           BEGINNING = Inr B"
    and "getWeightedProbabilities (getAggregatedSequenceProbabilities (aggregateSequences seqs))
           MIDDLE = Inr M"
    and "getWeightedProbabilities (getAggregatedSequenceProbabilities (aggregateSequences seqs))
           ENDING = Inr E"
  shows "generate this howMany =
           (case generate_words B M E (targetLengthMin this) (targetLengthMax this) howMany 0 []
                   (rng this) of
              None \<Rightarrow> None
            | Some (Inl e, rng1) \<Rightarrow> Some (Inl e, this\<lparr>rng := rng1\<rparr>)
            | Some (Inr words, rng1) \<Rightarrow>
                Some (Inr (case spellingStrategy this of
                             None \<Rightarrow> words
                           | Some apply \<Rightarrow> map apply words),
                      this\<lparr>rng := rng1\<rparr>))"
  unfolding generate_def using assms by simp

lemma tables_builtI:
  assumes "sequencingStrategy this (sampleSet this) = Some seqs"
    and "getWeightedProbabilities (getAggregatedSequenceProbabilities (aggregateSequences seqs))
           BEGINNING = Inr B"
    and "getWeightedProbabilities (getAggregatedSequenceProbabilities (aggregateSequences seqs))
           MIDDLE = Inr M"
    and "getWeightedProbabilities (getAggregatedSequenceProbabilities (aggregateSequences seqs))
           ENDING = Inr E"
  shows "tables_built this B M E"
  using assms by (simp add: tables_built_def)

lemma tables_builtE:
  assumes "tables_built this B M E"
  obtains seqs where "sequencingStrategy this (sampleSet this) = Some seqs"
    and "getWeightedProbabilities (getAggregatedSequenceProbabilities (aggregateSequences seqs))
           BEGINNING = Inr B"
    and "getWeightedProbabilities (getAggregatedSequenceProbabilities (aggregateSequences seqs))
           MIDDLE = Inr M"
    and "getWeightedProbabilities (getAggregatedSequenceProbabilities (aggregateSequences seqs))
           ENDING = Inr E"
  using assms unfolding tables_built_def Let_def
  by (cases "sequencingStrategy this (sampleSet this)") simp_all

lemma generate_of_tables:
  assumes "tables_built this B M E"
  shows "generate this howMany =
           (case generate_words B M E (targetLengthMin this) (targetLengthMax this) howMany 0 []
                   (rng this) of
              None \<Rightarrow> None
            | Some (Inl e, rng1) \<Rightarrow> Some (Inl e, this\<lparr>rng := rng1\<rparr>)
            | Some (Inr words, rng1) \<Rightarrow>
                Some (Inr (case spellingStrategy this of
                             None \<Rightarrow> words
                           | Some apply \<Rightarrow> map apply words),
                      this\<lparr>rng := rng1\<rparr>))"
  using assms by (elim tables_builtE) (rule generate_unfold)

lemma generate_cases:
  assumes "generate this howMany = Some (out, this')"
  shows "(out = Inl TypeError \<and> this' = this)
       \<or> (\<exists>B M E res r'.
            tables_built this B M E
          \<and> generate_words B M E (targetLengthMin this) (targetLengthMax this) howMany 0 []
              (rng this) = Some (res, r')
          \<and> this' = this\<lparr>rng := r'\<rparr>
          \<and> out = (case res of
                     Inl e \<Rightarrow> Inl e
                   | Inr words \<Rightarrow>
                       Inr (case spellingStrategy this of
                              None \<Rightarrow> words
                            | Some apply \<Rightarrow> map apply words)))"
proof -
  from assms obtain sequences
    where s: "sequencingStrategy this (sampleSet this) = Some sequences"
    unfolding generate_def by (cases "sequencingStrategy this (sampleSet this)") simp_all
  let ?p = "getAggregatedSequenceProbabilities (aggregateSequences sequences)"
  show ?thesis
  proof (cases "getWeightedProbabilities ?p BEGINNING")
    case (Inl e)
    with assms s show ?thesis
      using getWeightedProbabilities_Inl [OF Inl] unfolding generate_def by simp
  next
    case b: (Inr B)
    show ?thesis
    proof (cases "getWeightedProbabilities ?p MIDDLE")
      case (Inl e)
      with assms s b show ?thesis
        using getWeightedProbabilities_Inl [OF Inl] unfolding generate_def by simp
    next
      case m: (Inr M)
      show ?thesis
      proof (cases "getWeightedProbabilities ?p ENDING")
        case (Inl e)
        with assms s b m show ?thesis
          using getWeightedProbabilities_Inl [OF Inl] unfolding generate_def by simp
      next
        case e: (Inr E)
        have tb: "tables_built this B M E" by (rule tables_builtI [OF s b m e])
        show ?thesis
        proof (cases "generate_words B M E (targetLengthMin this) (targetLengthMax this)
                        howMany 0 [] (rng this)")
          case None
          with assms show ?thesis unfolding generate_of_tables [OF tb] by simp
        next
          case (Some p)
          then obtain res r' where gw: "generate_words B M E (targetLengthMin this)
              (targetLengthMax this) howMany 0 [] (rng this) = Some (res, r')"
            by (cases p) simp
          have "this' = this\<lparr>rng := r'\<rparr>
              \<and> out = (case res of
                     Inl e \<Rightarrow> Inl e
                   | Inr words \<Rightarrow>
                       Inr (case spellingStrategy this of
                              None \<Rightarrow> words
                            | Some apply \<Rightarrow> map apply words))"
            using assms gw unfolding generate_of_tables [OF tb] by (cases res) auto
          with tb gw show ?thesis by blast
        qed
      qed
    qed
  qed
qed

lemma generate_Inl:
  assumes "generate this howMany = Some (Inl e, this')"
  shows "(e = TypeError \<and> this' = this)
       \<or> (\<exists>B M E r1 c acc r0.
            tables_built this B M E
          \<and> generate_words B M E (targetLengthMin this) (targetLengthMax this) howMany 0 []
              (rng this) = Some (Inl e, r1)
          \<and> this' = this\<lparr>rng := r1\<rparr>
          \<and> e = MaximumTriesExceeded c
          \<and> generate_attempts B M E (targetLengthMin this) (targetLengthMax this) acc 0 None r0
              = Some (Inl e, r1))"
proof -
  from generate_cases [OF assms]
  consider (tables) "e = TypeError \<and> this' = this"
    | (loop) B M E res r' where "tables_built this B M E"
        "generate_words B M E (targetLengthMin this) (targetLengthMax this) howMany 0 []
              (rng this) = Some (res, r')"
        "this' = this\<lparr>rng := r'\<rparr>"
        "Inl e = (case res of
                     Inl e \<Rightarrow> Inl e
                   | Inr words \<Rightarrow>
                       Inr (case spellingStrategy this of
                              None \<Rightarrow> words
                            | Some apply \<Rightarrow> map apply words))"
    by auto
  then show ?thesis
  proof cases
    case tables
    then show ?thesis by blast
  next
    case loop
    from loop(4) have res: "res = Inl e" by (cases res) simp_all
    note gw = loop(2) [unfolded res]
    from generate_words_Inl_source [OF gw] obtain acc r0
      where ga: "generate_attempts B M E (targetLengthMin this) (targetLengthMax this) acc 0 None r0
              = Some (Inl e, r')"
      by blast
    from generate_attempts_Inl_exhausted [OF ga] obtain c where "e = MaximumTriesExceeded c"
      by blast
    with loop(1) gw loop(3) ga show ?thesis by blast
  qed
qed

lemma generate_Inr:
  assumes "generate this howMany = Some (Inr ws, this')"
  shows "\<exists>B M E accepted rs.
            tables_built this B M E
          \<and> generate_words B M E (targetLengthMin this) (targetLengthMax this) howMany 0 []
              (rng this) = Some (Inr accepted, rs ! howMany)
          \<and> this' = this\<lparr>rng := rs ! howMany\<rparr>
          \<and> length rs = howMany + 1 \<and> rs ! 0 = rng this
          \<and> (\<forall>j<howMany.
                generate_attempts B M E (targetLengthMin this) (targetLengthMax this)
                  (take j accepted) 0 None (rs ! j)
                = Some (Inr (accepted ! j), rs ! Suc j))
          \<and> distinct accepted \<and> length accepted = howMany
          \<and> ws = (case spellingStrategy this of
                     None \<Rightarrow> accepted
                   | Some apply \<Rightarrow> map apply accepted)"
proof -
  from generate_cases [OF assms] obtain B M E res r'
    where tb: "tables_built this B M E"
      and gw: "generate_words B M E (targetLengthMin this)
          (targetLengthMax this) howMany 0 [] (rng this) = Some (res, r')"
      and this': "this' = this\<lparr>rng := r'\<rparr>"
      and out: "Inr ws = (case res of
                     Inl e \<Rightarrow> Inl e
                   | Inr words \<Rightarrow>
                       Inr (case spellingStrategy this of
                              None \<Rightarrow> words
                            | Some apply \<Rightarrow> map apply words))"
    by auto
  from out obtain accepted where res: "res = Inr accepted"
    and ws: "ws = (case spellingStrategy this of
                     None \<Rightarrow> accepted
                   | Some apply \<Rightarrow> map apply accepted)"
    by (cases res) simp_all
  note gw' = gw [unfolded res]
  from generate_words_result [OF gw'] 
  have d: "distinct accepted" and l: "length accepted = howMany" by simp_all
  from generate_words_chain [OF gw'] obtain rs
    where len: "length rs = howMany + 1" and first: "rs ! 0 = rng this"
      and final: "rs ! howMany = r'"
      and chain: "\<forall>j. 0 \<le> j \<and> j < howMany \<longrightarrow>
                  generate_attempts B M E (targetLengthMin this) (targetLengthMax this)
                    (take j accepted) 0 None (rs ! (j - 0))
                  = Some (Inr (accepted ! j), rs ! Suc (j - 0))"
    by auto
  from chain have chain': "\<forall>j<howMany.
                generate_attempts B M E (targetLengthMin this) (targetLengthMax this)
                  (take j accepted) 0 None (rs ! j)
                = Some (Inr (accepted ! j), rs ! Suc j)"
    by simp
  from tb gw' this' len first chain' d l ws show ?thesis
    unfolding final [symmetric] by blast
qed

lemma generate_aborts_with_retry_loop:
  assumes tb: "tables_built this B M E"
    and k: "length acc = k" and kn: "k < howMany" and len: "length rs = k + 1"
    and first: "rs ! 0 = rng this"
    and chain: "\<forall>j<k. generate_attempts B M E (targetLengthMin this) (targetLengthMax this)
                  (take j acc) 0 None (rs ! j)
                = Some (Inr (acc ! j), rs ! Suc j)"
    and throw: "generate_attempts B M E (targetLengthMin this) (targetLengthMax this)
                  acc 0 None (rs ! k) = Some (Inl e, r1)"
  shows "generate this howMany = Some (Inl e, this\<lparr>rng := r1\<rparr>)"
proof -
  from generate_words_abort_chain [OF k kn len chain throw]
  have "generate_words B M E (targetLengthMin this) (targetLengthMax this) howMany 0 []
          (rng this) = Some (Inl e, r1)"
    unfolding first .
  then show ?thesis unfolding generate_of_tables [OF tb] by simp
qed

section \<open>Example runs\<close>


lemma ga_all_duplicates:
  assumes "generateSingleWord B M E lo hi r = Some (Inr w, r)" and "w \<in> set words"
  shows "generate_attempts B M E lo hi words attempt word r
         = Some (Inl (MaximumTriesExceeded None), r)"
proof (induction "repetitionMaximum - attempt" arbitrary: attempt word)
  case 0
  then have "repetitionMaximum \<le> attempt" by simp
  then show ?case by (rule ga_stop)
next
  case (Suc n)
  then have lt: "attempt < repetitionMaximum" by simp
  from Suc.hyps(2) have n: "n = repetitionMaximum - (attempt + 1)" by simp
  from ga_word_dup [OF lt assms, of word] Suc.hyps(1) [OF n, of "Some w"]
  show ?case by simp
qed

lemma example_attempt_BB:
  "generateSingleWord example_edges example_middles example_edges 2 2 (scripted_rng [])
   = Some (Inr ''BB'', scripted_rng [])"
  by (simp add: generateSingleWord_def middle_loop.simps rng_generate_between_def
      rng_generate_def scripted_rng_def scripted_def example_edges_def example_middles_def
      seq_B_def seq_a_def seq_b_def)

lemma example_attempts_exhausted:
  "generate_attempts example_edges example_middles example_edges 2 2 [''BB''] 0 None
     (scripted_rng []) = Some (Inl (MaximumTriesExceeded None), scripted_rng [])"
  by (rule ga_all_duplicates [OF example_attempt_BB]) simp

lemma example_sequences:
  "\<exists>seqs. getSequencesOfSet \<lparr>depth = 1, preserveCase = True\<rparr> [''Bab'', ''baB''] = Some seqs
     \<and> getWeightedProbabilities (getAggregatedSequenceProbabilities (aggregateSequences seqs))
           BEGINNING = Inr example_edges
     \<and> getWeightedProbabilities (getAggregatedSequenceProbabilities (aggregateSequences seqs))
           MIDDLE = Inr example_middles
     \<and> getWeightedProbabilities (getAggregatedSequenceProbabilities (aggregateSequences seqs))
           ENDING = Inr example_edges"
  using example_tables_built by (auto simp: Let_def)

lemma example_generate_exhausted:
  "generate \<lparr>sampleSet = [''Bab'', ''baB''], targetLengthMin = 2, targetLengthMax = 2,
             seed = None,
             sequencingStrategy = getSequencesOfSet \<lparr>depth = 1, preserveCase = True\<rparr>,
             spellingStrategy = None, rng = scripted_rng []\<rparr> 2
   = Some (Inl (MaximumTriesExceeded None),
           \<lparr>sampleSet = [''Bab'', ''baB''], targetLengthMin = 2, targetLengthMax = 2,
             seed = None,
             sequencingStrategy = getSequencesOfSet \<lparr>depth = 1, preserveCase = True\<rparr>,
             spellingStrategy = None, rng = scripted_rng []\<rparr>)"
  (is "generate ?G 2 = _")
proof -
  from example_sequences obtain seqs
    where s: "getSequencesOfSet \<lparr>depth = 1, preserveCase = True\<rparr> [''Bab'', ''baB''] = Some seqs"
      and b: "getWeightedProbabilities (getAggregatedSequenceProbabilities (aggregateSequences seqs))
           BEGINNING = Inr example_edges"
      and m: "getWeightedProbabilities (getAggregatedSequenceProbabilities (aggregateSequences seqs))
           MIDDLE = Inr example_middles"
      and e: "getWeightedProbabilities (getAggregatedSequenceProbabilities (aggregateSequences seqs))
           ENDING = Inr example_edges"
    by blast
  have s': "sequencingStrategy ?G (sampleSet ?G) = Some seqs"
    using s by simp
  have first: "generate_attempts example_edges example_middles example_edges 2 2 [] 0 None
      (scripted_rng []) = Some (Inr ''BB'', scripted_rng [])"
    by (rule ga_word_new [OF _ example_attempt_BB]) (simp_all add: repetitionMaximum_def)
  have "generate_words example_edges example_middles example_edges 2 2 2 0 [] (scripted_rng [])
      = generate_words example_edges example_middles example_edges 2 2 2 (0 + 1) ([] @ [''BB''])
          (scripted_rng [])"
    by (rule gw_step [OF _ first]) simp
  also have "\<dots> = Some (Inl (MaximumTriesExceeded None), scripted_rng [])"
    by (rule gw_abort) (simp_all add: example_attempts_exhausted)
  finally have "generate_words example_edges example_middles example_edges
      (targetLengthMin ?G) (targetLengthMax ?G) 2 0 [] (rng ?G)
      = Some (Inl (MaximumTriesExceeded None), scripted_rng [])"
    by simp
  then show ?thesis
    unfolding generate_unfold [OF s' b m e] by simp
qed

lemma example_tables_of_generator:
  "tables_built
     \<lparr>sampleSet = [''Bab'', ''baB''], targetLengthMin = 2, targetLengthMax = 2, seed = None,
       sequencingStrategy = getSequencesOfSet \<lparr>depth = 1, preserveCase = True\<rparr>,
       spellingStrategy = None, rng = scripted_rng []\<rparr>
     example_edges example_middles example_edges"
proof -
  from example_sequences obtain seqs
    where s: "getSequencesOfSet \<lparr>depth = 1, preserveCase = True\<rparr> [''Bab'', ''baB''] = Some seqs"
      and b: "getWeightedProbabilities (getAggregatedSequenceProbabilities (aggregateSequences seqs))
           BEGINNING = Inr example_edges"
      and m: "getWeightedProbabilities (getAggregatedSequenceProbabilities (aggregateSequences seqs))
           MIDDLE = Inr example_middles"
      and e: "getWeightedProbabilities (getAggregatedSequenceProbabilities (aggregateSequences seqs))
           ENDING = Inr example_edges"
    by blast
  show ?thesis
    by (rule tables_builtI [OF _ b m e]) (use s in simp)
qed

lemma example_first_word:
  "generate_attempts example_edges example_middles example_edges 2 2 [] 0 None
      (scripted_rng []) = Some (Inr ''BB'', scripted_rng [])"
  by (rule ga_word_new [OF _ example_attempt_BB]) (simp_all add: repetitionMaximum_def)

section \<open>The char-depth strategy never stalls a call of generate\<close>


lemma getSequencesOfSet_chars_nonempty:
  assumes "0 < depth S" and "getSequencesOfSet S corpus = Some seqs"
  shows "\<forall>s\<in>set seqs. Sequence.chars s \<noteq> []"
proof
  fix s assume "s \<in> set seqs"
  with assms(2) obtain sample j
    where j: "j < (length sample + depth S - 1) div depth S"
      and s: "s = currentSequence S sample (j * depth S)"
    unfolding getSequencesOfSet_closed [OF assms(1)] by auto
  from j have "j * depth S < length sample"
    using offset_lt_iff [OF assms(1)] by simp
  with assms(1) have "0 < length (Sequence.chars s)"
    unfolding s length_chars_currentSequence by simp
  then show "Sequence.chars s \<noteq> []" by simp
qed

lemma Map_set_values: "snd ` set (Map_set m k v) \<subseteq> insert v (snd ` set m)"
proof (cases "k \<in> fst ` set m")
  case True
  have "snd ` set (map (\<lambda>(k', v'). if k' = k then (k', v) else (k', v')) m)
        \<subseteq> insert v (snd ` set m)"
  proof
    fix x assume "x \<in> snd ` set (map (\<lambda>(k', v'). if k' = k then (k', v) else (k', v')) m)"
    then obtain k' v' where mem: "(k', v') \<in> set m"
      and x: "x = snd (if k' = k then (k', v) else (k', v'))"
      by auto
    show "x \<in> insert v (snd ` set m)"
    proof (cases "k' = k")
      case True
      with x show ?thesis by simp
    next
      case False
      with x have "x = snd (k', v')" by simp
      with mem show ?thesis by (intro insertI2 image_eqI)
    qed
  qed
  with True show ?thesis by (simp add: Map_set_def)
next
  case False
  then show ?thesis by (simp add: Map_set_def)
qed

lemma aggregate_step_chars:
  assumes "Sequence.chars s \<noteq> []" and "\<forall>a\<in>snd ` set m. AggregatedSequence.chars a \<noteq> []"
  shows "\<forall>a\<in>snd ` set (aggregateSequences_step m s). AggregatedSequence.chars a \<noteq> []"
proof -
  define a0 where "a0 = (case Map_get m (Sequence.chars s) of
                  None \<Rightarrow> \<lparr>chars = Sequence.chars s, frequencyBeginning = 0, frequencyMiddle = 0,
                            frequencyEnding = 0, frequency = 0\<rparr>
                | Some a \<Rightarrow> a)"
  have a0: "AggregatedSequence.chars a0 \<noteq> []"
  proof (cases "Map_get m (Sequence.chars s)")
    case None
    with assms(1) show ?thesis by (simp add: a0_def)
  next
    case (Some a)
    then have "a \<in> snd ` set m"
      by (auto simp: Map_get_def dest!: map_of_SomeD intro: rev_image_eqI)
    with assms(2) have "AggregatedSequence.chars a \<noteq> []" by blast
    with Some show ?thesis by (simp add: a0_def)
  qed
  obtain a4 where step: "aggregateSequences_step m s = Map_set m (Sequence.chars s) a4"
    and a4: "AggregatedSequence.chars a4 = AggregatedSequence.chars a0"
    unfolding aggregateSequences_step_def Let_def a0_def [symmetric] by simp
  show ?thesis
  proof
    fix a assume "a \<in> snd ` set (aggregateSequences_step m s)"
    with Map_set_values [of m "Sequence.chars s" a4] have "a = a4 \<or> a \<in> snd ` set m"
      unfolding step by blast
    with a0 a4 assms(2) show "AggregatedSequence.chars a \<noteq> []" by auto
  qed
qed

lemma aggregate_fold_chars:
  assumes "\<forall>s\<in>set seqs. Sequence.chars s \<noteq> []"
    and "\<forall>a\<in>snd ` set m. AggregatedSequence.chars a \<noteq> []"
  shows "\<forall>a\<in>snd ` set (foldl aggregateSequences_step m seqs). AggregatedSequence.chars a \<noteq> []"
  using assms
proof (induction seqs arbitrary: m)
  case Nil
  then show ?case by simp
next
  case (Cons s seqs)
  have 1: "Sequence.chars s \<noteq> []" using Cons.prems(1) by simp
  have 2: "\<forall>s\<in>set seqs. Sequence.chars s \<noteq> []" using Cons.prems(1) by simp
  have 3: "\<forall>a\<in>snd ` set (aggregateSequences_step m s). AggregatedSequence.chars a \<noteq> []"
    by (rule aggregate_step_chars [OF 1 Cons.prems(2)])
  show ?case unfolding foldl_Cons by (rule Cons.IH [OF 2 3])
qed

lemma aggregateSequences_chars:
  assumes "\<forall>s\<in>set seqs. Sequence.chars s \<noteq> []"
  shows "\<forall>a\<in>set (aggregateSequences seqs). AggregatedSequence.chars a \<noteq> []"
  using aggregate_fold_chars [OF assms, of "[]"]
  by (simp add: aggregateSequences_def Map_values_def)

lemma sequence_enrich:
  "map ProbabilityAndSequence.sequence (enrich p xs) = map ProbabilityAndSequence.sequence xs"
  by (induction xs arbitrary: p) simp_all

lemma sequence_list_update_probability:
  "map ProbabilityAndSequence.sequence (xs[k := (xs ! k)\<lparr>probability := q\<rparr>])
   = map ProbabilityAndSequence.sequence xs"
proof (cases "k < length xs")
  case True
  then show ?thesis by (simp add: map_update list_update_same_conv)
next
  case False
  then have "length xs \<le> k" by simp
  then show ?thesis by (simp only: list_update_beyond)
qed

lemma getWeightedProbabilities_sequences:
  assumes "getWeightedProbabilities probabilities type = Inr t"
  shows "set (map ProbabilityAndSequence.sequence t)
         \<subseteq> set (map AggregatedSequenceProbabilities.sequence probabilities)"
proof -
  define filtered where "filtered =
            (case type of
               BEGINNING \<Rightarrow>
                 map (\<lambda>it. \<lparr>probability = probabilityBeginning it,
                            sequence = AggregatedSequenceProbabilities.sequence it\<rparr>)
                   (filter (\<lambda>it. probabilityBeginning it > 0) probabilities)
             | MIDDLE \<Rightarrow>
                 map (\<lambda>it. \<lparr>probability = probabilityMiddle it,
                            sequence = AggregatedSequenceProbabilities.sequence it\<rparr>)
                   (filter (\<lambda>it. probabilityMiddle it > 0) probabilities)
             | ENDING \<Rightarrow>
                 map (\<lambda>it. \<lparr>probability = probabilityEnding it,
                            sequence = AggregatedSequenceProbabilities.sequence it\<rparr>)
                   (filter (\<lambda>it. probabilityEnding it > 0) probabilities))"
  have f: "set (map ProbabilityAndSequence.sequence filtered)
            \<subseteq> set (map AggregatedSequenceProbabilities.sequence probabilities)"
    unfolding filtered_def by (cases type) auto
  from assms have
    t: "t = (enrich 0 filtered)[length (enrich 0 filtered) - 1 :=
              (enrich 0 filtered ! (length (enrich 0 filtered) - 1))\<lparr>probability := 1\<rparr>]"
    unfolding getWeightedProbabilities_def Let_def Array_sort_comparefn filtered_def [symmetric]
    by (simp split: if_splits)
  have "map ProbabilityAndSequence.sequence t = map ProbabilityAndSequence.sequence filtered"
    unfolding t sequence_list_update_probability sequence_enrich ..
  with f show ?thesis by simp
qed

lemma probabilities_sequences:
  "map AggregatedSequenceProbabilities.sequence (getAggregatedSequenceProbabilities aggregated)
   = aggregated"
  unfolding getAggregatedSequenceProbabilities_def Let_def
  by (simp add: comp_def)

lemma table_entries_have_chars:
  assumes "\<forall>a\<in>set aggregated. AggregatedSequence.chars a \<noteq> []"
    and "getWeightedProbabilities (getAggregatedSequenceProbabilities aggregated) type = Inr t"
  shows "\<forall>m\<in>set t. 0 < charsLength m"
proof
  fix m assume "m \<in> set t"
  then have "ProbabilityAndSequence.sequence m \<in> set (map ProbabilityAndSequence.sequence t)"
    by simp
  with getWeightedProbabilities_sequences [OF assms(2)]
  have "ProbabilityAndSequence.sequence m \<in> set aggregated"
    unfolding probabilities_sequences by blast
  with assms(1) show "0 < charsLength m"
    by (simp add: charsLength_def)
qed

lemma generate_charDepth_returns:
  assumes "0 < depth S" and "sequencingStrategy this = getSequencesOfSet S"
  shows "\<exists>y. generate this howMany = Some y"
proof -
  obtain seqs where s: "sequencingStrategy this (sampleSet this) = Some seqs"
    using getSequencesOfSet_closed [OF assms(1)] assms(2) by simp
  then have "\<forall>s\<in>set seqs. Sequence.chars s \<noteq> []"
    using getSequencesOfSet_chars_nonempty [OF assms(1)] assms(2) by simp
  then have agg: "\<forall>a\<in>set (aggregateSequences seqs). AggregatedSequence.chars a \<noteq> []"
    by (rule aggregateSequences_chars)
  let ?p = "getAggregatedSequenceProbabilities (aggregateSequences seqs)"
  show ?thesis
  proof (cases "getWeightedProbabilities ?p BEGINNING")
    case (Inl e)
    with s show ?thesis unfolding generate_def by simp
  next
    case b: (Inr B)
    show ?thesis
    proof (cases "getWeightedProbabilities ?p MIDDLE")
      case (Inl e)
      with s b show ?thesis unfolding generate_def by simp
    next
      case m: (Inr M)
      show ?thesis
      proof (cases "getWeightedProbabilities ?p ENDING")
        case (Inl e)
        with s b m show ?thesis unfolding generate_def by simp
      next
        case e: (Inr E)
        have "\<forall>x\<in>set M. 0 < charsLength x"
          by (rule table_entries_have_chars [OF agg m])
        from generate_words_returns [OF this]
        obtain res r' where "generate_words B M E (targetLengthMin this) (targetLengthMax this)
            howMany 0 [] (rng this) = Some (res, r')"
          by (metis surj_pair)
        then show ?thesis
          unfolding generate_unfold [OF s b m e] by (cases res) simp_all
      qed
    qed
  qed
qed

section \<open>Claims about the retry loop\<close>


text \<open>
  Claim C7.  The ceiling is 1000.  When the retry loop for one word ends, it has made at
  most 1000 assembly attempts, one after the other on the same random number generator;
  it throws only after exactly 1000 attempts that all failed (each threw or assembled a
  word already accepted), and the error it throws is the one of the exhausted tries; it
  yields a word only from its last attempt, with every attempt before it failed.  When
  \<open>generate\<close> throws, either building the tables raised the \<open>TypeError\<close> and the
  generator is unchanged, or its loop over the words threw the error of the exhausted
  tries of one retry loop, and \<open>generate\<close> throws that very error: never the sampling
  error of an attempt.  Conversely, when the tables are built, the retry loops of the
  first \<open>k\<close> words each yield a word and the retry loop of the next requested word
  throws, \<open>generate\<close> throws that error and returns no list, whatever words were
  accepted before.  When every entry of the middle table has at least one character, the
  retry loop ends; with a char-depth strategy of depth at least 1 every call of
  \<open>generate\<close> ends, with a list or an error.
\<close>

theorem retry_loop_bounded:
  "repetitionMaximum = 1000
   \<and> (generate_attempts B M E lo hi words 0 None r = Some (res, r') \<longrightarrow>
        (\<exists>outcomes. attempts_trace B M E lo hi (length outcomes) r = Some (outcomes, r')
           \<and> attempts_outcome words repetitionMaximum res outcomes))
   \<and> (generate this howMany = Some (Inl e, this') \<longrightarrow>
        (e = TypeError \<and> this' = this)
        \<or> (\<exists>B M E r1 c acc r0.
              tables_built this B M E
            \<and> generate_words B M E (targetLengthMin this) (targetLengthMax this) howMany 0 []
                (rng this) = Some (Inl e, r1)
            \<and> this' = this\<lparr>rng := r1\<rparr>
            \<and> e = MaximumTriesExceeded c
            \<and> generate_attempts B M E (targetLengthMin this) (targetLengthMax this) acc 0 None r0
                = Some (Inl e, r1)))
   \<and> (i < n \<and> generate_attempts B M E lo hi words 0 None r = Some (Inl e', r1) \<longrightarrow>
        generate_words B M E lo hi n i words r = Some (Inl e', r1))
   \<and> (tables_built this B M E \<and> length acc = k \<and> k < howMany
        \<and> length rs = k + 1 \<and> rs ! 0 = rng this
        \<and> (\<forall>j<k. generate_attempts B M E (targetLengthMin this) (targetLengthMax this)
                    (take j acc) 0 None (rs ! j)
                  = Some (Inr (acc ! j), rs ! Suc j))
        \<and> generate_attempts B M E (targetLengthMin this) (targetLengthMax this)
              acc 0 None (rs ! k) = Some (Inl e', r1) \<longrightarrow>
        generate this howMany = Some (Inl e', this\<lparr>rng := r1\<rparr>))
   \<and> ((\<forall>m\<in>set M. 0 < charsLength m) \<longrightarrow>
        (\<exists>y. generate_attempts B M E lo hi words 0 None r = Some y))
   \<and> (0 < depth S \<and> sequencingStrategy this = getSequencesOfSet S \<longrightarrow>
        (\<exists>y. generate this howMany = Some y))"
proof (intro conjI impI)
  show "repetitionMaximum = 1000" by (rule repetitionMaximum_def)
next
  assume "generate_attempts B M E lo hi words 0 None r = Some (res, r')"
  from generate_attempts_trace [OF this]
  show "\<exists>outcomes. attempts_trace B M E lo hi (length outcomes) r = Some (outcomes, r')
           \<and> attempts_outcome words repetitionMaximum res outcomes"
    by simp
next
  assume "generate this howMany = Some (Inl e, this')"
  then show "(e = TypeError \<and> this' = this)
        \<or> (\<exists>B M E r1 c acc r0.
              tables_built this B M E
            \<and> generate_words B M E (targetLengthMin this) (targetLengthMax this) howMany 0 []
                (rng this) = Some (Inl e, r1)
            \<and> this' = this\<lparr>rng := r1\<rparr>
            \<and> e = MaximumTriesExceeded c
            \<and> generate_attempts B M E (targetLengthMin this) (targetLengthMax this) acc 0 None r0
                = Some (Inl e, r1))"
    by (rule generate_Inl)
next
  assume "i < n \<and> generate_attempts B M E lo hi words 0 None r = Some (Inl e', r1)"
  then show "generate_words B M E lo hi n i words r = Some (Inl e', r1)"
    using gw_abort by blast
next
  assume a: "tables_built this B M E \<and> length acc = k \<and> k < howMany
        \<and> length rs = k + 1 \<and> rs ! 0 = rng this
        \<and> (\<forall>j<k. generate_attempts B M E (targetLengthMin this) (targetLengthMax this)
                    (take j acc) 0 None (rs ! j)
                  = Some (Inr (acc ! j), rs ! Suc j))
        \<and> generate_attempts B M E (targetLengthMin this) (targetLengthMax this)
              acc 0 None (rs ! k) = Some (Inl e', r1)"
  show "generate this howMany = Some (Inl e', this\<lparr>rng := r1\<rparr>)"
    by (rule generate_aborts_with_retry_loop [of this B M E acc k howMany rs e' r1])
      (use a in blast)+
next
  assume "\<forall>m\<in>set M. 0 < charsLength m"
  then show "\<exists>y. generate_attempts B M E lo hi words 0 None r = Some y"
    by (intro generate_attempts_returns) simp_all
next
  assume "0 < depth S \<and> sequencingStrategy this = getSequencesOfSet S"
  then show "\<exists>y. generate this howMany = Some y"
    using generate_charDepth_returns by blast
qed

text \<open>
  The theorem at the example tables and a random number generator that assembles
  \<open>"BB"\<close> at every attempt: the first word is accepted, the loop of the second word
  throws after 1000 failed attempts, and the call of \<open>generate\<close> for two words throws
  that error.
\<close>

theorem retry_loop_bounded_witness:
  "generate_attempts example_edges example_middles example_edges 2 2 [''BB''] 0 None
     (scripted_rng []) = Some (Inl (MaximumTriesExceeded None), scripted_rng [])
   \<and> (\<exists>outcomes. attempts_trace example_edges example_middles example_edges 2 2
                    (length outcomes) (scripted_rng []) = Some (outcomes, scripted_rng [])
         \<and> length outcomes = 1000 \<and> list_all (failed_attempt [''BB'']) outcomes)
   \<and> generate_words example_edges example_middles example_edges 2 2 2 1 [''BB'']
        (scripted_rng []) = Some (Inl (MaximumTriesExceeded None), scripted_rng [])
   \<and> generate_attempts example_edges example_middles example_edges 2 2 [] 0 None
        (scripted_rng []) = Some (Inr ''BB'', scripted_rng [])
   \<and> generate \<lparr>sampleSet = [''Bab'', ''baB''], targetLengthMin = 2, targetLengthMax = 2,
                 seed = None,
                 sequencingStrategy = getSequencesOfSet \<lparr>depth = 1, preserveCase = True\<rparr>,
                 spellingStrategy = None, rng = scripted_rng []\<rparr> 2
      = Some (Inl (MaximumTriesExceeded None),
              \<lparr>sampleSet = [''Bab'', ''baB''], targetLengthMin = 2, targetLengthMax = 2,
                seed = None,
                sequencingStrategy = getSequencesOfSet \<lparr>depth = 1, preserveCase = True\<rparr>,
                spellingStrategy = None, rng = scripted_rng []\<rparr>)
   \<and> (\<exists>B M E r1 acc r0.
          generate_words B M E 2 2 2 0 [] (scripted_rng [])
            = Some (Inl (MaximumTriesExceeded None), r1)
        \<and> generate_attempts B M E 2 2 acc 0 None r0 = Some (Inl (MaximumTriesExceeded None), r1))
   \<and> (\<exists>y. generate_attempts example_edges example_middles example_edges 2 2 [''BB''] 0 None
             (scripted_rng []) = Some y)
   \<and> (\<exists>y. generate \<lparr>sampleSet = [''Bab'', ''baB''], targetLengthMin = 2, targetLengthMax = 2,
                   seed = None,
                   sequencingStrategy = getSequencesOfSet \<lparr>depth = 1, preserveCase = True\<rparr>,
                   spellingStrategy = None, rng = scripted_rng []\<rparr> 2 = Some y)"
proof -
  let ?G = "\<lparr>sampleSet = [''Bab'', ''baB''], targetLengthMin = 2, targetLengthMax = 2,
        seed = None,
        sequencingStrategy = getSequencesOfSet \<lparr>depth = 1, preserveCase = True\<rparr>,
        spellingStrategy = None, rng = scripted_rng []\<rparr>"
  let ?rs = "[scripted_rng [], scripted_rng []]"
  note inst = retry_loop_bounded [of example_edges example_middles example_edges 2 2 "[''BB'']"
      "scripted_rng []" "Inl (MaximumTriesExceeded None)" "scripted_rng []"
      ?G 2 "MaximumTriesExceeded None" ?G 1 2 "MaximumTriesExceeded None"
      "scripted_rng []" "[''BB'']" 1 ?rs "\<lparr>depth = 1, preserveCase = True\<rparr>"]
  have mids: "\<forall>m\<in>set example_middles. 0 < charsLength m"
    by (simp add: example_middles_def charsLength_def seq_a_def)
  have lt: "(1 :: nat) < 2" by simp
  have strat: "0 < depth \<lparr>depth = 1, preserveCase = True\<rparr>
      \<and> sequencingStrategy ?G = getSequencesOfSet \<lparr>depth = 1, preserveCase = True\<rparr>"
    by simp
  from inst example_attempts_exhausted
  have a: "\<exists>outcomes. attempts_trace example_edges example_middles example_edges 2 2
                    (length outcomes) (scripted_rng []) = Some (outcomes, scripted_rng [])
         \<and> attempts_outcome [''BB''] repetitionMaximum (Inl (MaximumTriesExceeded None)) outcomes"
    by blast
  then have a': "\<exists>outcomes. attempts_trace example_edges example_middles example_edges 2 2
                    (length outcomes) (scripted_rng []) = Some (outcomes, scripted_rng [])
         \<and> length outcomes = 1000 \<and> list_all (failed_attempt [''BB'']) outcomes"
    using inst by (auto simp: attempts_outcome_def)
  from inst example_attempts_exhausted lt
  have b: "generate_words example_edges example_middles example_edges 2 2 2 1 [''BB'']
        (scripted_rng []) = Some (Inl (MaximumTriesExceeded None), scripted_rng [])"
    by blast
  from inst mids
  have c: "\<exists>y. generate_attempts example_edges example_middles example_edges 2 2 [''BB''] 0 None
             (scripted_rng []) = Some y"
    by blast
  have chain: "tables_built ?G example_edges example_middles example_edges
        \<and> length [''BB''] = (1 :: nat) \<and> (1 :: nat) < 2
        \<and> length ?rs = 1 + 1 \<and> ?rs ! 0 = rng ?G
        \<and> (\<forall>j<1. generate_attempts example_edges example_middles example_edges
                    (targetLengthMin ?G) (targetLengthMax ?G)
                    (take j [''BB'']) 0 None (?rs ! j)
                  = Some (Inr ([''BB''] ! j), ?rs ! Suc j))
        \<and> generate_attempts example_edges example_middles example_edges
              (targetLengthMin ?G) (targetLengthMax ?G)
              [''BB''] 0 None (?rs ! 1) = Some (Inl (MaximumTriesExceeded None), scripted_rng [])"
    using example_tables_of_generator example_first_word example_attempts_exhausted by simp
  from inst chain
  have d: "generate ?G 2 = Some (Inl (MaximumTriesExceeded None), ?G\<lparr>rng := scripted_rng []\<rparr>)"
    by blast
  then have d': "generate ?G 2 = Some (Inl (MaximumTriesExceeded None), ?G)"
    by simp
  have ne: "MaximumTriesExceeded None \<noteq> TypeError" by simp
  from inst d' ne obtain B M E r1 acc r0
    where gw: "generate_words B M E (targetLengthMin ?G) (targetLengthMax ?G) 2 0 [] (rng ?G)
            = Some (Inl (MaximumTriesExceeded None), r1)"
      and ga: "generate_attempts B M E (targetLengthMin ?G) (targetLengthMax ?G) acc 0 None r0
            = Some (Inl (MaximumTriesExceeded None), r1)"
    by blast
  from gw have gw': "generate_words B M E 2 2 2 0 [] (scripted_rng [])
            = Some (Inl (MaximumTriesExceeded None), r1)"
    by simp
  from ga have ga': "generate_attempts B M E 2 2 acc 0 None r0
            = Some (Inl (MaximumTriesExceeded None), r1)"
    by simp
  from gw' ga'
  have e: "\<exists>B M E r1 acc r0.
          generate_words B M E 2 2 2 0 [] (scripted_rng [])
            = Some (Inl (MaximumTriesExceeded None), r1)
        \<and> generate_attempts B M E 2 2 acc 0 None r0 = Some (Inl (MaximumTriesExceeded None), r1)"
    by blast
  from inst strat have f: "\<exists>y. generate ?G 2 = Some y"
    by blast
  from example_attempts_exhausted a' b example_first_word d' e c f show ?thesis by blast
qed

section \<open>Claims about the returned list\<close>


text \<open>
  Claim C1, as stated, fails.  The loop compares a candidate with the words accepted so
  far, before the spelling strategy is applied; the strategy can map two accepted words
  to one string.  With the corpus \<open>["Bab", "baB"]\<close>, depth 1, case preserved, target
  length 2, the strategy that capitalises the first character and the seed \<open>"0000a0"\<close>
  of the toy random module, the accepted words are \<open>"BB"\<close> and \<open>"bB"\<close> and the call
  returns \<open>["BB", "BB"]\<close>.
\<close>

theorem spelling_merges_accepted_words:
  "construct_and_call scripted
     \<lparr>args.sampleSet = Some [''Bab'', ''baB''],
      args.targetLengthMin = Some 2,
      args.targetLengthMax = Some 2,
      args.sequencingStrategy = Some (getSequencesOfSet \<lparr>depth = 1, preserveCase = True\<rparr>),
      args.seed = Some ''0000a0'',
      args.spellingStrategy = Some BeginningCapitals_apply\<rparr> [2]
   = Some (Inr [Inr [''BB'', ''BB'']])
   \<and> \<not> distinct [''BB'', ''BB'']"
  by code_simp

text \<open>
  Claim C1, amended.  When \<open>generate(howMany)\<close> returns, it returns exactly \<open>howMany\<close>
  strings.  They are the accepted words, which are the list its loop over the words ends
  with on the tables built for the generator: the word at each position is the one the
  retry loop yields when run with the words before it as the accepted ones, on the random
  number generator as the retry loop before it left it, so the list is in the order of
  acceptance; no two accepted words are equal.  Without a spelling strategy the accepted
  words are returned as they are; with one, each is passed through it, order and count
  kept, and the returned strings are pairwise distinct when the strategy maps the
  accepted words to distinct strings.  The generator is left with the random number
  generator as the last retry loop left it.
\<close>

theorem generate_returns_accepted_words:
  "generate this howMany = Some (Inr ws, this') \<longrightarrow>
     length ws = howMany
     \<and> (\<exists>B M E accepted rs.
            tables_built this B M E
          \<and> generate_words B M E (targetLengthMin this) (targetLengthMax this) howMany 0 []
              (rng this) = Some (Inr accepted, rs ! howMany)
          \<and> this' = this\<lparr>rng := rs ! howMany\<rparr>
          \<and> length rs = howMany + 1 \<and> rs ! 0 = rng this
          \<and> (\<forall>j<howMany.
                generate_attempts B M E (targetLengthMin this) (targetLengthMax this)
                  (take j accepted) 0 None (rs ! j)
                = Some (Inr (accepted ! j), rs ! Suc j))
          \<and> distinct accepted \<and> length accepted = howMany
          \<and> (case spellingStrategy this of
                None \<Rightarrow> ws = accepted
              | Some apply \<Rightarrow>
                  ws = map apply accepted \<and> (inj_on apply (set accepted) \<longrightarrow> distinct ws)))"
proof
  assume "generate this howMany = Some (Inr ws, this')"
  from generate_Inr [OF this] obtain B M E accepted rs
    where tb: "tables_built this B M E"
      and gw: "generate_words B M E (targetLengthMin this) (targetLengthMax this) howMany 0 []
              (rng this) = Some (Inr accepted, rs ! howMany)"
      and this': "this' = this\<lparr>rng := rs ! howMany\<rparr>"
      and len: "length rs = howMany + 1" and first: "rs ! 0 = rng this"
      and chain: "\<forall>j<howMany.
                generate_attempts B M E (targetLengthMin this) (targetLengthMax this)
                  (take j accepted) 0 None (rs ! j)
                = Some (Inr (accepted ! j), rs ! Suc j)"
      and d: "distinct accepted" and l: "length accepted = howMany"
      and ws: "ws = (case spellingStrategy this of
                     None \<Rightarrow> accepted
                   | Some apply \<Rightarrow> map apply accepted)"
    by blast
  have lws: "length ws = howMany"
    using ws l by (cases "spellingStrategy this") simp_all
  have sp: "case spellingStrategy this of
                None \<Rightarrow> ws = accepted
              | Some apply \<Rightarrow>
                  ws = map apply accepted \<and> (inj_on apply (set accepted) \<longrightarrow> distinct ws)"
    using ws d by (cases "spellingStrategy this") (simp_all add: distinct_map)
  from tb gw this' len first chain d l sp
  have "\<exists>B M E accepted rs.
            tables_built this B M E
          \<and> generate_words B M E (targetLengthMin this) (targetLengthMax this) howMany 0 []
              (rng this) = Some (Inr accepted, rs ! howMany)
          \<and> this' = this\<lparr>rng := rs ! howMany\<rparr>
          \<and> length rs = howMany + 1 \<and> rs ! 0 = rng this
          \<and> (\<forall>j<howMany.
                generate_attempts B M E (targetLengthMin this) (targetLengthMax this)
                  (take j accepted) 0 None (rs ! j)
                = Some (Inr (accepted ! j), rs ! Suc j))
          \<and> distinct accepted \<and> length accepted = howMany
          \<and> (case spellingStrategy this of
                None \<Rightarrow> ws = accepted
              | Some apply \<Rightarrow>
                  ws = map apply accepted \<and> (inj_on apply (set accepted) \<longrightarrow> distinct ws))"
    by blast
  with lws show "length ws = howMany
     \<and> (\<exists>B M E accepted rs.
            tables_built this B M E
          \<and> generate_words B M E (targetLengthMin this) (targetLengthMax this) howMany 0 []
              (rng this) = Some (Inr accepted, rs ! howMany)
          \<and> this' = this\<lparr>rng := rs ! howMany\<rparr>
          \<and> length rs = howMany + 1 \<and> rs ! 0 = rng this
          \<and> (\<forall>j<howMany.
                generate_attempts B M E (targetLengthMin this) (targetLengthMax this)
                  (take j accepted) 0 None (rs ! j)
                = Some (Inr (accepted ! j), rs ! Suc j))
          \<and> distinct accepted \<and> length accepted = howMany
          \<and> (case spellingStrategy this of
                None \<Rightarrow> ws = accepted
              | Some apply \<Rightarrow>
                  ws = map apply accepted \<and> (inj_on apply (set accepted) \<longrightarrow> distinct ws)))"
    by (rule conjI)
qed

text \<open>
  The theorem at the end-to-end scenario of the tests (three words, lengths 3 to 7, the
  capitalising strategy), with the toy random module.
\<close>

theorem generate_returns_accepted_words_witness:
  "map_option fst
     (generate \<lparr>sampleSet = [''Bob'', ''Gobob'', ''Bobby''], targetLengthMin = 3,
                targetLengthMax = 7, seed = Some ''Test1234567890'',
                sequencingStrategy = getSequencesOfSet \<lparr>depth = 2, preserveCase = False\<rparr>,
                spellingStrategy = Some BeginningCapitals_apply,
                rng = RandomSeeded_new scripted (Some ''Test1234567890'')\<rparr> 3)
   = Some (Inr [''Gobbboy'', ''Bobob'', ''Bob''])
   \<and> length [''Gobbboy'', ''Bobob'', ''Bob''] = 3
   \<and> (\<exists>B M E accepted r'.
         generate_words B M E 3 7 3 0 [] (RandomSeeded_new scripted (Some ''Test1234567890''))
           = Some (Inr accepted, r')
       \<and> distinct accepted \<and> length accepted = 3
       \<and> [''Gobbboy'', ''Bobob'', ''Bob''] = map BeginningCapitals_apply accepted)"
  (is "map_option fst (generate ?G 3) = Some (Inr ?ws) \<and> _")
proof -
  have run: "map_option fst (generate ?G 3) = Some (Inr ?ws)"
    by code_simp
  then obtain G' where "generate ?G 3 = Some (Inr ?ws, G')"
    by (cases "generate ?G 3") auto
  from generate_returns_accepted_words [of ?G 3 ?ws G'] this
  obtain B M E accepted rs
    where gw: "generate_words B M E (targetLengthMin ?G) (targetLengthMax ?G) 3 0 []
              (rng ?G) = Some (Inr accepted, rs ! 3)"
      and d: "distinct accepted" and l: "length accepted = 3"
      and sp: "case spellingStrategy ?G of
                None \<Rightarrow> ?ws = accepted
              | Some apply \<Rightarrow>
                  ?ws = map apply accepted \<and> (inj_on apply (set accepted) \<longrightarrow> distinct ?ws)"
    by blast
  from gw have gw': "generate_words B M E 3 7 3 0 []
      (RandomSeeded_new scripted (Some ''Test1234567890'')) = Some (Inr accepted, rs ! 3)"
    by simp
  from sp have ws: "?ws = map BeginningCapitals_apply accepted" by simp
  have "\<exists>B M E accepted r'.
         generate_words B M E 3 7 3 0 [] (RandomSeeded_new scripted (Some ''Test1234567890''))
           = Some (Inr accepted, r')
       \<and> distinct accepted \<and> length accepted = 3
       \<and> ?ws = map BeginningCapitals_apply accepted"
    by (rule exI [of _ B], rule exI [of _ M], rule exI [of _ E], rule exI [of _ accepted],
        rule exI [of _ "rs ! 3"]) (intro conjI gw' d l ws)
  with run show ?thesis by simp
qed

section \<open>Claims about seeding\<close>


lemma generate_seed:
  "generate (this\<lparr>seed := s\<rparr>) howMany
   = map_option (\<lambda>(out, this'). (out, this'\<lparr>seed := s\<rparr>)) (generate this howMany)"
  unfolding generate_def Let_def
  by (simp split: option.splits sum.splits prod.splits)

lemma generate_calls_seed:
  "generate_calls (this\<lparr>seed := s\<rparr>) howManys = generate_calls this howManys"
proof (induction howManys arbitrary: this)
  case Nil
  show ?case by simp
next
  case (Cons howMany rest)
  show ?case
  proof (cases "generate this howMany")
    case None
    then show ?thesis by (simp add: generate_seed)
  next
    case (Some p)
    obtain out this' where p: "p = (out, this')" by (cases p)
    with Some Cons.IH [of this'] show ?thesis by (simp add: generate_seed)
  qed
qed


lemma RandomSeeded_new_fallback:
  assumes "seedArg = None \<or> seedArg = Some []"
  shows "RandomSeeded_new m seedArg = RandomSeeded_new m (Some (fallbackSeed m))"
  using assms by (auto simp: RandomSeeded_new_def)

lemma new_fallback_seed:
  assumes "args.seed a = None \<or> args.seed a = Some []"
  shows "MarkovChainWordGenerator_new m (a\<lparr>args.seed := Some (fallbackSeed m)\<rparr>)
         = map_sum id (\<lambda>g. g\<lparr>seed := Some (fallbackSeed m)\<rparr>) (MarkovChainWordGenerator_new m a)"
  unfolding MarkovChainWordGenerator_new_def
  using RandomSeeded_new_fallback [OF assms, of m] by simp

text \<open>
  Claim C5.  Two generators constructed by the same random module from the same arguments,
  seed included, and called with the same list of \<open>howMany\<close> values give the same list
  of results.  A generator constructed with an undefined or empty seed gives the results
  of the generator constructed with the fallback seed of the module.
\<close>

theorem seeded_generation_deterministic:
  "(a1 = a2 \<and> ns1 = ns2 \<longrightarrow> construct_and_call m a1 ns1 = construct_and_call m a2 ns2)
   \<and> (args.seed a = None \<or> args.seed a = Some [] \<longrightarrow>
        construct_and_call m a ns
        = construct_and_call m (a\<lparr>args.seed := Some (fallbackSeed m)\<rparr>) ns)"
proof (intro conjI impI)
  assume "a1 = a2 \<and> ns1 = ns2"
  then show "construct_and_call m a1 ns1 = construct_and_call m a2 ns2" by simp
next
  assume "args.seed a = None \<or> args.seed a = Some []"
  from new_fallback_seed [OF this, of m]
  show "construct_and_call m a ns
        = construct_and_call m (a\<lparr>args.seed := Some (fallbackSeed m)\<rparr>) ns"
    unfolding construct_and_call_def
    by (cases "MarkovChainWordGenerator_new m a") (simp_all add: generate_calls_seed)
qed

text \<open>
  The theorem at the toy random module, whose fallback seed is \<open>"fallback"\<close>, for the
  calls \<open>generate(1)\<close> and \<open>generate(2)\<close>.
\<close>

theorem seeded_generation_deterministic_witness:
  "(let a = \<lparr>args.sampleSet = Some [''Bab'', ''baB''],
              args.targetLengthMin = Some 2,
              args.targetLengthMax = Some 3,
              args.sequencingStrategy = Some (getSequencesOfSet \<lparr>depth = 1, preserveCase = True\<rparr>),
              args.seed = None,
              args.spellingStrategy = None\<rparr>
    in construct_and_call scripted a [1, 2] = Some (Inr [Inr [''bab''], Inr [''bab'', ''BB'']])
       \<and> construct_and_call scripted a [1, 2]
           = construct_and_call scripted (a\<lparr>args.seed := Some ''fallback''\<rparr>) [1, 2]
       \<and> construct_and_call scripted (a\<lparr>args.seed := Some []\<rparr>) [1, 2]
           = construct_and_call scripted (a\<lparr>args.seed := Some ''fallback''\<rparr>) [1, 2])"
  (is "let a = ?A in _")
proof -
  have fb: "fallbackSeed scripted = ''fallback''" by (simp add: scripted_def)
  have run: "construct_and_call scripted ?A [1, 2] = Some (Inr [Inr [''bab''], Inr [''bab'', ''BB'']])"
    by code_simp
  have none: "construct_and_call scripted ?A [1, 2]
           = construct_and_call scripted (?A\<lparr>args.seed := Some ''fallback''\<rparr>) [1, 2]"
    using seeded_generation_deterministic [of ?A ?A "[1, 2]" "[1, 2]" scripted ?A "[1, 2]"]
    by (simp add: fb)
  have empty: "construct_and_call scripted (?A\<lparr>args.seed := Some []\<rparr>) [1, 2]
           = construct_and_call scripted (?A\<lparr>args.seed := Some ''fallback''\<rparr>) [1, 2]"
    using seeded_generation_deterministic [of ?A ?A "[1, 2]" "[1, 2]" scripted
        "?A\<lparr>args.seed := Some []\<rparr>" "[1, 2]"]
    by (simp add: fb)
  from run none empty show ?thesis unfolding Let_def by blast
qed

end
